theory Spec2Isabelle
  imports Complex_Main "HOL-Library.AList"
begin

section \<open>Risk manager (src/risk/risk_manager.py)\<close>

text \<open>
  Python floats are idealised as rationals; Python ints are \<open>int\<close>.  A reading of
  \<open>time.time()\<close> is an input of the function that takes it.
\<close>

datatype side = Buy | Sell

datatype py_error = ZeroDivisionError | TypeError

record risk_limits =
  max_position :: int
  max_daily_loss :: rat
  max_order_rate :: int
  max_order_size :: int
  price_deviation_pct :: rat

record client_risk_state =
  position :: int
  realized_pnl :: rat
  unrealized_pnl :: rat
  daily_pnl :: rat
  order_count :: int
  last_order_time :: rat
  is_blocked :: bool

record risk_manager =
  limits :: risk_limits
  client_states :: "string \<rightharpoonup> client_risk_state"
  session_start_time :: rat

text \<open>The dataclass defaults of \<open>RiskLimits()\<close> and \<open>ClientRiskState()\<close>.\<close>

definition default_limits :: risk_limits where
  "default_limits = \<lparr>max_position = 100, max_daily_loss = 1000, max_order_rate = 100,
     max_order_size = 50, price_deviation_pct = 5 / 100\<rparr>"

definition new_client_state :: client_risk_state where
  "new_client_state = \<lparr>position = 0, realized_pnl = 0, unrealized_pnl = 0, daily_pnl = 0,
     order_count = 0, last_order_time = 0, is_blocked = False\<rparr>"

text \<open>
  The second component of the pairs the checks return is an error message in the source;
  the model keeps which message it is and the numbers formatted into it.
\<close>

datatype reject =
    Client_blocked
  | Rate_limit_exceeded
  | Size_exceeds_limit int int
  | Size_not_positive
  | Position_limit_exceeded int int
  | Price_deviation_exceeded rat rat
  | Daily_loss_exceeded rat

type_synonym verdict = "bool \<times> reject option"

definition get_or_create_state :: "string \<Rightarrow> risk_manager \<Rightarrow> client_risk_state \<times> risk_manager" where
  "get_or_create_state cid rm =
     (case client_states rm cid of
        None \<Rightarrow> (new_client_state, rm\<lparr>client_states := (client_states rm)(cid \<mapsto> new_client_state)\<rparr>)
      | Some st \<Rightarrow> (st, rm))"

definition put_state :: "string \<Rightarrow> client_risk_state \<Rightarrow> risk_manager \<Rightarrow> risk_manager" where
  "put_state cid st rm = rm\<lparr>client_states := (client_states rm)(cid \<mapsto> st)\<rparr>"

definition check_order_rate :: "rat \<Rightarrow> string \<Rightarrow> risk_manager \<Rightarrow> verdict \<times> risk_manager" where
  "check_order_rate now cid rm =
     (let (state, rm1) = get_or_create_state cid rm;
          state1 = (if now - last_order_time state \<ge> 1 then state\<lparr>order_count := 0\<rparr> else state)
      in if order_count state1 \<ge> max_order_rate (limits rm1)
         then ((False, Some Rate_limit_exceeded), put_state cid state1 rm1)
         else ((True, None),
               put_state cid (state1\<lparr>order_count := order_count state1 + 1, last_order_time := now\<rparr>) rm1))"

definition check_position_limit :: "string \<Rightarrow> side \<Rightarrow> int \<Rightarrow> risk_manager \<Rightarrow> verdict \<times> risk_manager" where
  "check_position_limit cid sd sz rm =
     (let (state, rm1) = get_or_create_state cid rm;
          position_delta = (if sd = Buy then sz else - sz);
          new_position = position state + position_delta
      in if \<bar>new_position\<bar> > max_position (limits rm1)
         then ((False, Some (Position_limit_exceeded new_position (max_position (limits rm1)))), rm1)
         else ((True, None), rm1))"

definition check_order_size :: "int \<Rightarrow> risk_manager \<Rightarrow> verdict" where
  "check_order_size sz rm =
     (if sz > max_order_size (limits rm) then (False, Some (Size_exceeds_limit sz (max_order_size (limits rm))))
      else if sz \<le> 0 then (False, Some Size_not_positive)
      else (True, None))"

text \<open>\<open>abs(price - mid_price) / mid_price\<close> raises ZeroDivisionError when the mid is zero.\<close>

definition check_price_bounds :: "rat \<Rightarrow> rat option \<Rightarrow> risk_manager \<Rightarrow> py_error + verdict" where
  "check_price_bounds pr mid_price rm =
     (case mid_price of
        None \<Rightarrow> Inr (True, None)
      | Some m \<Rightarrow>
          if m = 0 then Inl ZeroDivisionError
          else let deviation = \<bar>pr - m\<bar> / m
               in if deviation > price_deviation_pct (limits rm)
                  then Inr (False, Some (Price_deviation_exceeded deviation (price_deviation_pct (limits rm))))
                  else Inr (True, None))"

definition check_daily_loss :: "string \<Rightarrow> risk_manager \<Rightarrow> verdict \<times> risk_manager" where
  "check_daily_loss cid rm =
     (let (state, rm1) = get_or_create_state cid rm;
          total_pnl = realized_pnl state + unrealized_pnl state
      in if total_pnl < - max_daily_loss (limits rm1)
         then ((False, Some (Daily_loss_exceeded total_pnl)), put_state cid (state\<lparr>is_blocked := True\<rparr>) rm1)
         else ((True, None), rm1))"

text \<open>
  \<open>validate_order\<close>: every \<open>return False, msg\<close> of the source is a branch; the manager
  is returned as the calls up to that point left it.
\<close>

definition validate_order ::
  "rat \<Rightarrow> string \<Rightarrow> side \<Rightarrow> int \<Rightarrow> rat option \<Rightarrow> rat option \<Rightarrow> risk_manager
     \<Rightarrow> (py_error + verdict) \<times> risk_manager" where
  "validate_order now cid sd sz pr mid_price rm =
     (let (state, rm0) = get_or_create_state cid rm
      in if is_blocked state then (Inr (False, Some Client_blocked), rm0)
         else
           let ((valid1, msg1), rm1) = check_order_rate now cid rm0
           in if \<not> valid1 then (Inr (False, msg1), rm1)
              else
                let (valid2, msg2) = check_order_size sz rm1
                in if \<not> valid2 then (Inr (False, msg2), rm1)
                   else
                     let ((valid3, msg3), rm3) = check_position_limit cid sd sz rm1
                     in if \<not> valid3 then (Inr (False, msg3), rm3)
                        else
                          case (case (pr, mid_price) of
                                  (Some p, Some m) \<Rightarrow> check_price_bounds p (Some m) rm3
                                | _ \<Rightarrow> Inr (True, None)) of
                            Inl e \<Rightarrow> (Inl e, rm3)
                          | Inr (valid4, msg4) \<Rightarrow>
                              if \<not> valid4 then (Inr (False, msg4), rm3)
                              else
                                let ((valid5, msg5), rm5) = check_daily_loss cid rm3
                                in if \<not> valid5 then (Inr (False, msg5), rm5)
                                   else (Inr (True, None), rm5))"

definition update_position :: "string \<Rightarrow> side \<Rightarrow> int \<Rightarrow> rat \<Rightarrow> risk_manager \<Rightarrow> risk_manager" where
  "update_position cid sd sz pr rm =
     (let (state, rm1) = get_or_create_state cid rm;
          position_delta = (if sd = Buy then sz else - sz)
      in put_state cid (state\<lparr>position := position state + position_delta\<rparr>) rm1)"

definition update_pnl :: "string \<Rightarrow> rat \<Rightarrow> rat \<Rightarrow> risk_manager \<Rightarrow> risk_manager" where
  "update_pnl cid realized unrealized rm =
     (let (state, rm1) = get_or_create_state cid rm;
          state1 = state\<lparr>realized_pnl := realized_pnl state + realized\<rparr>;
          state2 = state1\<lparr>unrealized_pnl := unrealized\<rparr>;
          state3 = state2\<lparr>daily_pnl := realized_pnl state2 + unrealized_pnl state2\<rparr>
      in put_state cid state3 rm1)"

section \<open>Limit order book (src/lob/order_book.py)\<close>

datatype order_type = Limit | Market

datatype status = Pending | Active | Partially_filled | Filled | Canceled | Rejected

record order =
  order_id :: string
  client_id :: string
  side :: side
  otype :: order_type
  price :: "rat option"
  osize :: int
  remaining_size :: int
  timestamp :: rat
  status :: status

text \<open>A \<open>Fill\<close> without its \<open>trade_id\<close>, a random uuid that nothing reads.\<close>

record fill =
  fill_order_id :: string
  fill_client_id :: string
  fill_side :: side
  fill_price :: rat
  fill_size :: int
  fill_timestamp :: rat

text \<open>
  \<open>bids\<close> and \<open>asks\<close> are dictionaries from a price to a deque of
  \<open>(order_id, size)\<close>: association lists in insertion order.  \<open>clock_reads\<close> counts the
  readings of \<open>time.time()\<close> taken by the book so far; the \<open>n\<close>-th reading returns
  \<open>clk n\<close>, for a clock \<open>clk\<close> that the operations take as a parameter.
\<close>

type_synonym queue = "(string \<times> int) list"
type_synonym book_side = "(rat \<times> queue) list"

record lob =
  tick_size :: rat
  max_levels :: int
  bids :: book_side
  asks :: book_side
  orders :: "string \<rightharpoonup> order"
  fills :: "fill list"
  last_trade_price :: "rat option"
  last_trade_size :: int
  clock_reads :: nat

definition new_lob :: "rat \<Rightarrow> int \<Rightarrow> lob" where
  "new_lob tick levels = \<lparr>tick_size = tick, max_levels = levels, bids = [], asks = [],
     orders = Map.empty, fills = [], last_trade_price = None, last_trade_size = 0, clock_reads = 0\<rparr>"

definition keys :: "book_side \<Rightarrow> rat list" where
  "keys d = map fst d"

text \<open>\<open>book[price]\<close> on a \<open>defaultdict(deque)\<close>: the queue stored there, or an empty one.\<close>

definition queue_at :: "book_side \<Rightarrow> rat \<Rightarrow> queue" where
  "queue_at d p = (case map_of d p of None \<Rightarrow> [] | Some q \<Rightarrow> q)"

text \<open>Python's \<open>round\<close> on a float: to the nearest integer, a tie to the even one.\<close>

definition py_round :: "rat \<Rightarrow> int" where
  "py_round x =
     (let f = \<lfloor>x\<rfloor>; d = x - of_int f
      in if d < 1 / 2 then f else if d > 1 / 2 then f + 1 else if even f then f else f + 1)"

definition round_price :: "lob \<Rightarrow> rat \<Rightarrow> py_error + rat" where
  "round_price b p =
     (if tick_size b = 0 then Inl ZeroDivisionError
      else Inr (of_int (py_round (p / tick_size b)) * tick_size b))"

definition best_bid :: "lob \<Rightarrow> rat option" where
  "best_bid b = (if bids b \<noteq> [] then Some (Max (set (keys (bids b)))) else None)"

definition best_ask :: "lob \<Rightarrow> rat option" where
  "best_ask b = (if asks b \<noteq> [] then Some (Min (set (keys (asks b)))) else None)"

definition mid_price :: "lob \<Rightarrow> rat option" where
  "mid_price b =
     (case (best_bid b, best_ask b) of
        (Some bb, Some ba) \<Rightarrow> Some ((bb + ba) / 2)
      | _ \<Rightarrow> last_trade_price b)"

definition own_book :: "side \<Rightarrow> lob \<Rightarrow> book_side" where
  "own_book sd b = (if sd = Buy then bids b else asks b)"

definition opposite_book :: "side \<Rightarrow> lob \<Rightarrow> book_side" where
  "opposite_book sd b = (if sd = Buy then asks b else bids b)"

definition set_own_book :: "side \<Rightarrow> book_side \<Rightarrow> lob \<Rightarrow> lob" where
  "set_own_book sd d b = (if sd = Buy then b\<lparr>bids := d\<rparr> else b\<lparr>asks := d\<rparr>)"

definition set_opposite_book :: "side \<Rightarrow> book_side \<Rightarrow> lob \<Rightarrow> lob" where
  "set_opposite_book sd d b = (if sd = Buy then b\<lparr>asks := d\<rparr> else b\<lparr>bids := d\<rparr>)"

text \<open>
  Orders are objects that the index and the local variables of the engine share; the
  model reads and writes them through the index.  \<open>order_of b oid\<close> is
  \<open>self.orders[oid]\<close> for an identifier that is registered (\<open>add_order\<close> registers the
  incoming order before anything reads it).
\<close>

definition order_of :: "lob \<Rightarrow> string \<Rightarrow> order" where
  "order_of b oid = the (orders b oid)"

definition upd_order :: "string \<Rightarrow> (order \<Rightarrow> order) \<Rightarrow> lob \<Rightarrow> lob" where
  "upd_order oid f b = b\<lparr>orders := (orders b)(oid \<mapsto> f (order_of b oid))\<rparr>"

text \<open>The deque at \<open>opposite_book[price]\<close>, changed in place.\<close>

definition set_queue :: "side \<Rightarrow> rat \<Rightarrow> queue \<Rightarrow> lob \<Rightarrow> lob" where
  "set_queue sd p q b = set_opposite_book sd (AList.update p q (opposite_book sd b)) b"

text \<open>
  One pass of the body of the \<open>while\<close> loop of \<open>_match_market_order\<close> for a head entry
  whose order is registered: the two fills, the sizes, the maker's status and queue entry,
  the last trade.  It returns the taker's fill, the one the loop appends to its result.
\<close>

definition match_step :: "(nat \<Rightarrow> rat) \<Rightarrow> side \<Rightarrow> string \<Rightarrow> rat \<Rightarrow> string \<Rightarrow> lob \<Rightarrow> fill \<times> lob" where
  "match_step clk sd tid p other_order_id b =
     (let ordr = order_of b tid;
          other_order = order_of b other_order_id;
          fsize = min (remaining_size ordr) (remaining_size other_order);
          fill1 = \<lparr>fill_order_id = order_id ordr, fill_client_id = client_id ordr,
                   fill_side = side ordr, fill_price = p, fill_size = fsize,
                   fill_timestamp = clk (clock_reads b)\<rparr>;
          fill2 = \<lparr>fill_order_id = other_order_id, fill_client_id = client_id other_order,
                   fill_side = side other_order, fill_price = p, fill_size = fsize,
                   fill_timestamp = clk (clock_reads b + 1)\<rparr>;
          b1 = b\<lparr>fills := fills b @ [fill1, fill2], clock_reads := clock_reads b + 2\<rparr>;
          b2 = upd_order tid (\<lambda>x. x\<lparr>remaining_size := remaining_size x - fsize\<rparr>) b1;
          b3 = upd_order other_order_id (\<lambda>x. x\<lparr>remaining_size := remaining_size x - fsize\<rparr>) b2;
          b4 = (if remaining_size (order_of b3 other_order_id) = 0
                then set_queue sd p (tl (queue_at (opposite_book sd b3) p))
                       (upd_order other_order_id (\<lambda>x. x\<lparr>status := Filled\<rparr>) b3)
                else set_queue sd p
                       ((other_order_id, remaining_size (order_of b3 other_order_id))
                          # tl (queue_at (opposite_book sd b3) p))
                       (upd_order other_order_id (\<lambda>x. x\<lparr>status := Partially_filled\<rparr>) b3))
      in (fill1, b4\<lparr>last_trade_price := Some p, last_trade_size := fsize\<rparr>))"

text \<open>
  The \<open>while queue and order.remaining_size > 0\<close> loop at one price level.  An entry whose
  order is not registered is dropped.  The loop ends: a pass either removes the head of
  the queue or leaves the taker with nothing to fill.
\<close>

function match_queue :: "(nat \<Rightarrow> rat) \<Rightarrow> side \<Rightarrow> string \<Rightarrow> rat \<Rightarrow> lob \<Rightarrow> fill list \<Rightarrow> lob \<times> fill list" where
  "match_queue clk sd tid p b fs =
     (case queue_at (opposite_book sd b) p of
        [] \<Rightarrow> (b, fs)
      | (other_order_id, available_size) # rest \<Rightarrow>
          if \<not> remaining_size (order_of b tid) > 0 then (b, fs)
          else if orders b other_order_id = None
          then match_queue clk sd tid p (set_queue sd p rest b) fs
          else match_queue clk sd tid p (snd (match_step clk sd tid p other_order_id b))
                 (fs @ [fst (match_step clk sd tid p other_order_id b)]))"
  by pat_completeness auto

lemma queue_at_update:
  "queue_at (AList.update p q d) p' = (if p' = p then q else queue_at d p')"
  by (simp add: queue_at_def update_conv')

lemma match_step_measure:
  assumes "queue_at (opposite_book sd b) p = e # rest" and "remaining_size (order_of b tid) > 0"
  shows "2 * length (queue_at (opposite_book sd (snd (match_step clk sd tid p oid b))) p)
           + (if remaining_size (order_of (snd (match_step clk sd tid p oid b)) tid) > 0 then 1 else 0)
         < 2 * length (e # rest) + 1"
  using assms
  by (cases sd; cases "oid = tid")
     (simp_all add: match_step_def Let_def set_queue_def upd_order_def order_of_def
        opposite_book_def set_opposite_book_def min_def queue_at_update)

termination match_queue
proof (relation "measure (\<lambda>(clk, sd, tid, p, b, fs).
          2 * length (queue_at (opposite_book sd b) p)
          + (if remaining_size (order_of b tid) > 0 then 1 else 0))", goal_cases)
  case 1
  show ?case by simp
next
  case (2 clk sd tid p b fs e rest oid avail)
  then show ?case
    by (cases sd)
       (simp_all add: set_queue_def opposite_book_def set_opposite_book_def order_of_def
          queue_at_update)
next
  case (3 clk sd tid p b fs e rest oid avail)
  then show ?case
    using match_step_measure [of sd b p e rest tid clk oid] by simp
qed

text \<open>The \<open>for price in prices\<close> loop, with its \<open>break\<close>.\<close>

fun match_levels :: "(nat \<Rightarrow> rat) \<Rightarrow> side \<Rightarrow> string \<Rightarrow> rat list \<Rightarrow> lob \<Rightarrow> fill list \<Rightarrow> lob \<times> fill list" where
  "match_levels clk sd tid [] b fs = (b, fs)"
| "match_levels clk sd tid (p # prices) b fs =
     (if remaining_size (order_of b tid) \<le> 0 then (b, fs)
      else case match_queue clk sd tid p b fs of
             (b', fs') \<Rightarrow> match_levels clk sd tid prices b' fs')"

text \<open>\<open>for price in list(book.keys()): if not book[price]: del book[price]\<close>.\<close>

definition clean_empty_queues :: "book_side \<Rightarrow> book_side" where
  "clean_empty_queues d =
     fold (\<lambda>p d'. if queue_at d' p = [] then AList.delete p d' else d') (keys d) d"

definition match_market_order :: "(nat \<Rightarrow> rat) \<Rightarrow> string \<Rightarrow> lob \<Rightarrow> fill list \<times> lob" where
  "match_market_order clk tid b =
     (let sd = side (order_of b tid)
      in if opposite_book sd b = [] then ([], upd_order tid (\<lambda>x. x\<lparr>status := Rejected\<rparr>) b)
         else
           let prices = (if sd = Sell then rev (sort (keys (opposite_book sd b)))
                         else sort (keys (opposite_book sd b)));
               (b1, fs) = match_levels clk sd tid prices b [];
               b2 = set_opposite_book sd (clean_empty_queues (opposite_book sd b1)) b1;
               b3 = upd_order tid
                      (\<lambda>x. x\<lparr>status := (if remaining_size x = 0 then Filled else Partially_filled)\<rparr>) b2
           in (fs, b3))"

text \<open>
  \<open>_add_limit_order\<close>.  Rounding a missing price raises TypeError, a zero tick
  ZeroDivisionError; both happen when the order is registered and the book is otherwise
  untouched.
\<close>

definition add_limit_order :: "(nat \<Rightarrow> rat) \<Rightarrow> string \<Rightarrow> lob \<Rightarrow> (py_error + fill list) \<times> lob" where
  "add_limit_order clk tid b =
     (case price (order_of b tid) of
        None \<Rightarrow> (Inl TypeError, b)
      | Some raw \<Rightarrow>
          (case round_price b raw of
             Inl e \<Rightarrow> (Inl e, b)
           | Inr p \<Rightarrow>
               let b1 = upd_order tid (\<lambda>x. x\<lparr>price := Some p\<rparr>) b;
                   sd = side (order_of b1 tid);
                   opposite = opposite_book sd b1;
                   (fs, b2) =
                     (if opposite \<noteq> [] then
                        (if sd = Buy then
                           (if p \<ge> Min (set (keys opposite)) then match_market_order clk tid b1
                            else ([], b1))
                         else
                           (if p \<le> Max (set (keys opposite)) then match_market_order clk tid b1
                            else ([], b1)))
                      else ([], b1));
                   b3 =
                     (if remaining_size (order_of b2 tid) > 0 then
                        let book = own_book sd b2;
                            b' = set_own_book sd
                                   (AList.update p
                                      (queue_at book p @ [(tid, remaining_size (order_of b2 tid))]) book) b2
                        in if status (order_of b' tid) = Pending
                           then upd_order tid (\<lambda>x. x\<lparr>status := Active\<rparr>) b'
                           else b'
                      else b2)
               in (Inr fs, b3)))"

definition add_order :: "(nat \<Rightarrow> rat) \<Rightarrow> order \<Rightarrow> lob \<Rightarrow> (py_error + fill list) \<times> lob" where
  "add_order clk ordr b =
     (let b1 = b\<lparr>orders := (orders b)(order_id ordr \<mapsto> ordr\<lparr>remaining_size := osize ordr\<rparr>)\<rparr>
      in if otype ordr = Market
         then (case match_market_order clk (order_id ordr) b1 of (fs, b2) \<Rightarrow> (Inr fs, b2))
         else add_limit_order clk (order_id ordr) b1)"

definition cancel_order :: "string \<Rightarrow> lob \<Rightarrow> bool \<times> lob" where
  "cancel_order oid b =
     (case orders b oid of
        None \<Rightarrow> (False, b)
      | Some ordr \<Rightarrow>
          if status ordr = Filled \<or> status ordr = Canceled then (False, b)
          else
            let book = own_book (side ordr) b;
                b1 = (case price ordr of
                        None \<Rightarrow> b
                      | Some p \<Rightarrow>
                          if p \<in> set (keys book) then
                            let new_queue = filter (\<lambda>(i, sz). i \<noteq> oid) (queue_at book p)
                            in if new_queue \<noteq> []
                               then set_own_book (side ordr) (AList.update p new_queue book) b
                               else set_own_book (side ordr) (AList.delete p book) b
                          else b)
            in (True, upd_order oid (\<lambda>x. x\<lparr>status := Canceled\<rparr>) b1))"

definition get_order :: "lob \<Rightarrow> string \<Rightarrow> order option" where
  "get_order b oid = orders b oid"

section \<open>Order entry (src/interface/trading_interface.py)\<close>

text \<open>
  The \<open>for fill in fills\<close> loop of \<open>submit_order\<close>; pushing the fill to the client's
  sockets does not touch the book or the risk state.
\<close>

definition process_fills :: "fill list \<Rightarrow> risk_manager \<Rightarrow> risk_manager" where
  "process_fills fs rm =
     fold (\<lambda>f. update_position (fill_client_id f) (fill_side f) (fill_size f) (fill_price f)) fs rm"

record order_request =
  req_client_id :: string
  req_side :: side
  req_type :: "order_type option"
  req_order_type :: "order_type option"
  req_price :: "rat option"
  req_size :: int

datatype http_result =
    Unhandled py_error
  | Http_400 "reject option"
  | Http_404_order_not_found
  | Http_400_cannot_cancel
  | Order_response string status
  | Cancel_response string

definition normalize_order_type :: "order_request \<Rightarrow> order_type" where
  "normalize_order_type req =
     (case req_type req of
        Some t \<Rightarrow> t
      | None \<Rightarrow> (case req_order_type req of Some t \<Rightarrow> t | None \<Rightarrow> Limit))"

text \<open>
  \<open>POST /order\<close>.  \<open>now\<close> is the time the rate check reads, \<open>new_id\<close> the uuid minted
  for the order and \<open>ts\<close> its creation time.
\<close>

definition submit_order ::
  "(nat \<Rightarrow> rat) \<Rightarrow> rat \<Rightarrow> string \<Rightarrow> rat \<Rightarrow> order_request \<Rightarrow> lob \<times> risk_manager
     \<Rightarrow> http_result \<times> lob \<times> risk_manager" where
  "submit_order clk now new_id ts req st =
     (case st of (b, rm) \<Rightarrow>
        (let ty = normalize_order_type req;
             mid = mid_price b;
             ordr = \<lparr>order_id = new_id, client_id = req_client_id req, side = req_side req,
                      otype = ty, price = req_price req, osize = req_size req,
                      remaining_size = 0, timestamp = ts, status = Pending\<rparr>
         in (case validate_order now (req_client_id req) (req_side req) (req_size req)
                    (if ty = Limit then req_price req else None) mid rm of
               (Inl e, rm1) \<Rightarrow> (Unhandled e, b, rm1)
             | (Inr (valid, err), rm1) \<Rightarrow>
                 (if \<not> valid then (Http_400 err, b, rm1)
                  else (case add_order clk ordr b of
                          (Inl e, b') \<Rightarrow> (Unhandled e, b', rm1)
                        | (Inr fs, b') \<Rightarrow>
                            (Order_response new_id (status (order_of b' new_id)), b',
                             process_fills fs rm1))))))"

text \<open>\<open>POST /cancel/{order_id}\<close>.\<close>

definition cancel_endpoint :: "string \<Rightarrow> lob \<Rightarrow> http_result \<times> lob" where
  "cancel_endpoint oid b =
     (case get_order b oid of
        None \<Rightarrow> (Http_404_order_not_found, b)
      | Some _ \<Rightarrow>
          (case cancel_order oid b of
             (success, b') \<Rightarrow>
               if \<not> success then (Http_400_cannot_cancel, b') else (Cancel_response oid, b')))"

section \<open>The ordered check list of the risk gate\<close>

text \<open>
  The specification's reading of \<open>validate\<close>: six checks in a fixed order, run one after
  the other until one fails.  \<open>run_checks\<close> is that reading; the six checks are the
  source's own functions.
\<close>

type_synonym risk_check = "risk_manager \<Rightarrow> (py_error + verdict) \<times> risk_manager"

fun run_checks :: "risk_check list \<Rightarrow> risk_check" where
  "run_checks [] rm = (Inr (True, None), rm)"
| "run_checks (c # cs) rm =
     (case c rm of
        (Inl e, rm') \<Rightarrow> (Inl e, rm')
      | (Inr (valid, msg), rm') \<Rightarrow> if valid then run_checks cs rm' else (Inr (False, msg), rm'))"

definition blocked_check :: "string \<Rightarrow> risk_check" where
  "blocked_check cid rm =
     (case get_or_create_state cid rm of
        (state, rm') \<Rightarrow>
          (Inr (if is_blocked state then (False, Some Client_blocked) else (True, None)), rm'))"

definition rate_check :: "rat \<Rightarrow> string \<Rightarrow> risk_check" where
  "rate_check now cid rm = (case check_order_rate now cid rm of (v, rm') \<Rightarrow> (Inr v, rm'))"

definition size_check :: "int \<Rightarrow> risk_check" where
  "size_check sz rm = (Inr (check_order_size sz rm), rm)"

definition position_check :: "string \<Rightarrow> side \<Rightarrow> int \<Rightarrow> risk_check" where
  "position_check cid sd sz rm =
     (case check_position_limit cid sd sz rm of (v, rm') \<Rightarrow> (Inr v, rm'))"

definition price_bounds_check :: "rat option \<Rightarrow> rat option \<Rightarrow> risk_check" where
  "price_bounds_check pr mid rm =
     (case (pr, mid) of
        (Some p, Some m) \<Rightarrow> (check_price_bounds p (Some m) rm, rm)
      | _ \<Rightarrow> (Inr (True, None), rm))"

definition daily_loss_check :: "string \<Rightarrow> risk_check" where
  "daily_loss_check cid rm = (case check_daily_loss cid rm of (v, rm') \<Rightarrow> (Inr v, rm'))"

definition ordered_checks ::
  "rat \<Rightarrow> string \<Rightarrow> side \<Rightarrow> int \<Rightarrow> rat option \<Rightarrow> rat option \<Rightarrow> risk_check list" where
  "ordered_checks now cid sd sz pr mid =
     [blocked_check cid, rate_check now cid, size_check sz, position_check cid sd sz,
      price_bounds_check pr mid, daily_loss_check cid]"

section \<open>Consistency of the book\<close>

text \<open>
  The size filled for an order, read from the fill history: the sum of the sizes of the
  fill records that bear its identifier.
\<close>

definition filled_size :: "lob \<Rightarrow> string \<Rightarrow> int" where
  "filled_size b oid = sum_list (map fill_size (filter (\<lambda>f. fill_order_id f = oid) (fills b)))"

text \<open>A limit order whose status is active or partially filled.\<close>

definition resting :: "order \<Rightarrow> bool" where
  "resting x \<longleftrightarrow> otype x = Limit \<and> (status x = Active \<or> status x = Partially_filled)"

text \<open>Every queue entry of the book, bids first.\<close>

definition all_entries :: "lob \<Rightarrow> queue" where
  "all_entries b = concat (map snd (bids b)) @ concat (map snd (asks b))"

text \<open>
  The invariant, in five parts.  Every registered order is stored under its own
  identifier, with \<open>0 \<le> remaining_size \<le> size\<close> and the fills accounting for the
  difference; every fill belongs to a registered order; every queue entry refers to a
  resting order of that side and price and caches its remaining size; the prices of a
  side and the identifiers of a queue are distinct; and every resting order has an entry
  in the queue at its price on its side.  While an order is being matched it is still on
  its way into the book: the last part is stated with a set of identifiers exempt from it.
\<close>

definition orders_inv :: "lob \<Rightarrow> bool" where
  "orders_inv b \<longleftrightarrow>
     (\<forall>oid x. orders b oid = Some x \<longrightarrow>
        order_id x = oid \<and> 0 \<le> remaining_size x \<and> remaining_size x \<le> osize x
        \<and> filled_size b oid = osize x - remaining_size x)"

definition fills_inv :: "lob \<Rightarrow> bool" where
  "fills_inv b \<longleftrightarrow> (\<forall>f \<in> set (fills b). orders b (fill_order_id f) \<noteq> None)"

definition entries_inv :: "lob \<Rightarrow> bool" where
  "entries_inv b \<longleftrightarrow>
     (\<forall>s p oid sz. (oid, sz) \<in> set (queue_at (own_book s b) p) \<longrightarrow>
        (\<exists>x. orders b oid = Some x \<and> side x = s \<and> price x = Some p
             \<and> remaining_size x = sz \<and> 0 < sz \<and> resting x))"

definition queues_inv :: "lob \<Rightarrow> bool" where
  "queues_inv b \<longleftrightarrow>
     (\<forall>s. distinct (keys (own_book s b)))
     \<and> (\<forall>s p. distinct (map fst (queue_at (own_book s b) p)))"

definition resting_inv :: "string set \<Rightarrow> lob \<Rightarrow> bool" where
  "resting_inv ex b \<longleftrightarrow>
     (\<forall>oid x. orders b oid = Some x \<and> oid \<notin> ex \<and> resting x \<longrightarrow>
        (\<exists>p. price x = Some p \<and> oid \<in> fst ` set (queue_at (own_book (side x) b) p)))"

definition book_inv_but :: "string set \<Rightarrow> lob \<Rightarrow> bool" where
  "book_inv_but ex b \<longleftrightarrow>
     orders_inv b \<and> fills_inv b \<and> entries_inv b \<and> queues_inv b \<and> resting_inv ex b"

definition book_inv :: "lob \<Rightarrow> bool" where
  "book_inv b = book_inv_but {} b"

text \<open>The taker during matching: registered, exempt, and in no queue.\<close>

definition absent :: "string \<Rightarrow> lob \<Rightarrow> bool" where
  "absent tid b \<longleftrightarrow> (\<forall>s p. tid \<notin> fst ` set (queue_at (own_book s b) p))"

definition taker_inv :: "string \<Rightarrow> lob \<Rightarrow> bool" where
  "taker_inv tid b \<longleftrightarrow> book_inv_but {tid} b \<and> absent tid b \<and> orders b tid \<noteq> None"

definition opposite_side :: "side \<Rightarrow> side" where
  "opposite_side sd = (if sd = Buy then Sell else Buy)"

text \<open>
  The states that the matching loops pass through from a state \<open>b\<close>: each step is a pass
  of the body of the \<open>while\<close> loop at some price, on the head entry of the queue there.
\<close>

inductive matched :: "(nat \<Rightarrow> rat) \<Rightarrow> side \<Rightarrow> string \<Rightarrow> lob \<Rightarrow> lob \<Rightarrow> bool"
  for clk :: "nat \<Rightarrow> rat" and sd :: side and tid :: string and b :: lob where
  matched_refl: "matched clk sd tid b b"
| matched_drop: "matched clk sd tid b b1 \<Longrightarrow>
     queue_at (opposite_book sd b1) p = (oid, avail) # rest \<Longrightarrow>
     orders b1 oid = None \<Longrightarrow>
     matched clk sd tid b (set_queue sd p rest b1)"
| matched_step: "matched clk sd tid b b1 \<Longrightarrow>
     queue_at (opposite_book sd b1) p = (oid, avail) # rest \<Longrightarrow>
     0 < remaining_size (order_of b1 tid) \<Longrightarrow>
     orders b1 oid \<noteq> None \<Longrightarrow>
     matched clk sd tid b (snd (match_step clk sd tid p oid b1))"

text \<open>
  The books that the operations build: a new book, orders submitted with a fresh
  identifier, a positive size and the status \<open>pending\<close> that \<open>Order(...)\<close> gives them, and
  cancels.  A submission that raises leaves the order registered, and the book goes on.
\<close>

inductive reachable :: "lob \<Rightarrow> bool" where
  reachable_new: "reachable (new_lob tick levels)"
| reachable_add: "reachable b \<Longrightarrow> orders b (order_id x) = None \<Longrightarrow> 0 < osize x \<Longrightarrow>
     status x = Pending \<Longrightarrow> reachable (snd (add_order clk x b))"
| reachable_cancel: "reachable b \<Longrightarrow> reachable (snd (cancel_order oid b))"

text \<open>
  The fill records of one match: the taker's, then the maker's, at one price and one
  positive size, on opposite sides, stamped with two successive readings of the clock.
  \<open>taker_maker_pairs clk n x fs\<close> says that \<open>fs\<close> is a sequence of such pairs for the
  taker \<open>x\<close>, the first stamped with the \<open>n\<close>-th reading.
\<close>

definition fill_pair :: "(nat \<Rightarrow> rat) \<Rightarrow> nat \<Rightarrow> order \<Rightarrow> fill \<Rightarrow> fill \<Rightarrow> bool" where
  "fill_pair clk n x f1 f2 \<longleftrightarrow>
     fill_order_id f1 = order_id x \<and> fill_client_id f1 = client_id x \<and> fill_side f1 = side x
     \<and> fill_order_id f2 \<noteq> order_id x \<and> fill_side f2 \<noteq> side x
     \<and> fill_price f2 = fill_price f1 \<and> fill_size f2 = fill_size f1 \<and> 0 < fill_size f1
     \<and> fill_timestamp f1 = clk n \<and> fill_timestamp f2 = clk (n + 1)"

fun taker_maker_pairs :: "(nat \<Rightarrow> rat) \<Rightarrow> nat \<Rightarrow> order \<Rightarrow> fill list \<Rightarrow> bool" where
  "taker_maker_pairs clk n x [] = True"
| "taker_maker_pairs clk n x [f] = False"
| "taker_maker_pairs clk n x (f1 # f2 # fs) =
     (fill_pair clk n x f1 f2 \<and> taker_maker_pairs clk (n + 2) x fs)"

text \<open>The size on offer on one side of the book: the sum of the sizes cached in its queues.\<close>

definition liquidity :: "book_side \<Rightarrow> int" where
  "liquidity d = sum_list (map snd (concat (map snd d)))"

section \<open>Concrete books and orders\<close>

text \<open>
  \<open>new_order\<close> is the \<open>Order(...)\<close> call of the callers: the dataclass defaults give
  \<open>remaining_size = 0\<close> and \<open>status = "pending"\<close>.  The example clock advances by one at
  every reading.
\<close>

definition new_order :: "string \<Rightarrow> string \<Rightarrow> side \<Rightarrow> order_type \<Rightarrow> rat option \<Rightarrow> int \<Rightarrow> order" where
  "new_order oid cid sd ty pr sz = \<lparr>order_id = oid, client_id = cid, side = sd, otype = ty,
     price = pr, osize = sz, remaining_size = 0, timestamp = 0, status = Pending\<rparr>"

definition example_clock :: "nat \<Rightarrow> rat" where
  "example_clock n = of_nat n"

definition example_risk_manager :: risk_manager where
  "example_risk_manager = \<lparr>limits = default_limits, client_states = Map.empty, session_start_time = 0\<rparr>"

definition empty_book :: lob where
  "empty_book = new_lob (1 / 100) 20"

text \<open>Asks of 1 at 99 and of 10 at 105.\<close>

definition two_asks_book :: lob where
  "two_asks_book =
     snd (add_order example_clock (new_order ''a2'' ''maker'' Sell Limit (Some 105) 10)
       (snd (add_order example_clock (new_order ''a1'' ''maker'' Sell Limit (Some 99) 1) empty_book)))"

text \<open>A bid of 10 at 100.\<close>

definition one_bid_book :: lob where
  "one_bid_book =
     snd (add_order example_clock (new_order ''b1'' ''maker'' Buy Limit (Some 100) 10) empty_book)"

text \<open>A market buy of 5 sent to the empty book.\<close>

definition rejected_book :: lob where
  "rejected_book =
     snd (add_order example_clock (new_order ''t'' ''taker'' Buy Market None 5) empty_book)"

text \<open>A limit sell of 3 at 99.95 sent to \<open>one_bid_book\<close>.\<close>

definition sold_book :: lob where
  "sold_book =
     snd (add_order example_clock (new_order ''s'' ''taker'' Sell Limit (Some (1999 / 20)) 3) one_bid_book)"

text \<open>A market buy of 12 sent to \<open>two_asks_book\<close>, which offers 11.\<close>

definition swept_book :: lob where
  "swept_book =
     snd (add_order example_clock (new_order ''t'' ''taker'' Buy Market None 12) two_asks_book)"

section \<open>The risk gate\<close>

text \<open>
  C8.  \<open>validate_order\<close> is the ordered check list blocked, rate, size, position, price
  bounds, daily loss, run until the first check that fails: it returns that check's
  verdict and the manager as the checks up to it left it, and it returns ok only when the
  list is exhausted.
\<close>

theorem validate_order_runs_ordered_checks:
  "validate_order now cid sd sz pr mid rm = run_checks (ordered_checks now cid sd sz pr mid) rm"
  by (auto simp add: validate_order_def ordered_checks_def blocked_check_def rate_check_def
        size_check_def position_check_def price_bounds_check_def daily_loss_check_def
        Let_def split: prod.splits sum.splits option.splits)

theorem validate_order_runs_ordered_checks_witness:
  "fst (run_checks (ordered_checks 5 ''c'' Buy 60 None None) example_risk_manager)
     = Inr (False, Some (Size_exceeds_limit 60 50))
   \<and> map_option is_blocked
        (client_states (snd (run_checks (ordered_checks 5 ''c'' Buy 60 None None) example_risk_manager)) ''c'')
     = Some False"
  using validate_order_runs_ordered_checks [of 5 "''c''" Buy 60 None None example_risk_manager, symmetric]
  by (simp add: validate_order_def check_order_rate_def check_order_size_def
        get_or_create_state_def put_state_def example_risk_manager_def default_limits_def
        new_client_state_def Let_def)

lemma get_or_create_state_registered:
  "get_or_create_state cid rm = (st, rm0) \<Longrightarrow> client_states rm0 cid = Some st"
  by (auto simp: get_or_create_state_def split: option.splits)

lemma check_position_limit_keeps_manager:
  "client_states rm cid = Some st \<Longrightarrow> snd (check_position_limit cid sd sz rm) = rm"
  by (simp add: check_position_limit_def get_or_create_state_def Let_def)

lemma check_daily_loss_keeps_rate:
  "client_states rm cid = Some st \<Longrightarrow>
   \<exists>st'. client_states (snd (check_daily_loss cid rm)) cid = Some st'
         \<and> order_count st' = order_count st \<and> last_order_time st' = last_order_time st"
  by (simp add: check_daily_loss_def get_or_create_state_def Let_def put_state_def)

lemma check_order_rate_pass:
  "client_states rm0 cid = Some st \<Longrightarrow> fst (fst (check_order_rate now cid rm0)) \<Longrightarrow>
   \<exists>st'. client_states (snd (check_order_rate now cid rm0)) cid = Some st'
      \<and> order_count st' = (if now - last_order_time st \<ge> 1 then 0 else order_count st) + 1
      \<and> last_order_time st' = now"
  by (simp add: check_order_rate_def get_or_create_state_def Let_def put_state_def split: if_splits)

text \<open>
  C10.  For a client that is not blocked and passes the rate check, \<open>validate_order\<close>
  leaves the client's \<open>order_count\<close> one above the count the rate check started from
  (zero when a second has passed) and \<open>last_order_time\<close> at the time of the call, whatever
  the size, position, price-bounds and daily-loss checks decide afterwards: a rejection by
  one of them still uses up one unit of the rate budget.
\<close>

theorem validate_order_consumes_rate:
  assumes "get_or_create_state cid rm = (st, rm0)"
    and "\<not> is_blocked st"
    and "fst (fst (check_order_rate now cid rm0))"
  shows "\<exists>st'. client_states (snd (validate_order now cid sd sz pr mid rm)) cid = Some st'
           \<and> order_count st' = (if now - last_order_time st \<ge> 1 then 0 else order_count st) + 1
           \<and> last_order_time st' = now"
proof -
  have s0: "client_states rm0 cid = Some st"
    using assms(1) by (rule get_or_create_state_registered)
  obtain v1 rm1 where r1: "check_order_rate now cid rm0 = (v1, rm1)"
    by (cases "check_order_rate now cid rm0")
  from check_order_rate_pass [OF s0 assms(3)] r1
  obtain st1 where s1: "client_states rm1 cid = Some st1"
    and c1: "order_count st1 = (if now - last_order_time st \<ge> 1 then 0 else order_count st) + 1"
    and t1: "last_order_time st1 = now"
    by auto
  have p: "snd (check_position_limit cid sd sz rm1) = rm1"
    using s1 by (rule check_position_limit_keeps_manager)
  from check_daily_loss_keeps_rate [OF s1]
  obtain st5 where s5: "client_states (snd (check_daily_loss cid rm1)) cid = Some st5"
    and c5: "order_count st5 = order_count st1" and t5: "last_order_time st5 = last_order_time st1"
    by auto
  have "snd (validate_order now cid sd sz pr mid rm) = rm1
        \<or> snd (validate_order now cid sd sz pr mid rm) = snd (check_daily_loss cid rm1)"
    using assms(1,2) r1 p
    by (auto simp: validate_order_def Let_def split: prod.splits sum.splits option.splits)
  then show ?thesis
    using s1 c1 t1 s5 c5 t5 by auto
qed

text \<open>A buy of size 0 is rejected by the size check, after the rate check has counted it.\<close>

theorem validate_order_consumes_rate_witness:
  "fst (validate_order 5 ''c'' Buy 0 None None example_risk_manager) = Inr (False, Some Size_not_positive)
   \<and> (\<exists>st'. client_states (snd (validate_order 5 ''c'' Buy 0 None None example_risk_manager)) ''c'' = Some st'
          \<and> order_count st' = 1 \<and> last_order_time st' = 5)"
proof -
  have g: "get_or_create_state ''c'' example_risk_manager
             = (new_client_state, put_state ''c'' new_client_state example_risk_manager)"
    by (simp add: get_or_create_state_def put_state_def example_risk_manager_def)
  have nb: "\<not> is_blocked new_client_state"
    by (simp add: new_client_state_def)
  have rate: "fst (fst (check_order_rate 5 ''c'' (put_state ''c'' new_client_state example_risk_manager)))"
    by (simp add: check_order_rate_def get_or_create_state_def put_state_def
          example_risk_manager_def default_limits_def new_client_state_def Let_def)
  have rej: "fst (validate_order 5 ''c'' Buy 0 None None example_risk_manager)
               = Inr (False, Some Size_not_positive)"
    by (simp add: validate_order_def check_order_rate_def check_order_size_def
          get_or_create_state_def put_state_def example_risk_manager_def default_limits_def
          new_client_state_def Let_def)
  show ?thesis
    using validate_order_consumes_rate [OF g nb rate, of Buy 0 None None] rej
    by (simp add: new_client_state_def)
qed

text \<open>
  C4 (as amended).  \<open>update_position\<close>, the update that \<open>submit_order\<close> applies to every
  fill it processes, adds the fill's size to the client's position for a buy and subtracts
  it for a sell; it leaves every other field of the client's risk state, every other
  client and the limits as they were, and does not read the price.
\<close>

theorem update_position_changes_position_only:
  "client_states (update_position cid sd sz pr rm) =
     (client_states rm)(cid \<mapsto>
        (fst (get_or_create_state cid rm))
          \<lparr>position := position (fst (get_or_create_state cid rm)) + (if sd = Buy then sz else - sz)\<rparr>)
   \<and> limits (update_position cid sd sz pr rm) = limits rm"
  by (auto simp: update_position_def get_or_create_state_def put_state_def Let_def
      split: option.splits)

text \<open>
  C4 as stated fails: after buying 5 at 100, selling them at 110 or at 90 gives the same
  risk state, with a realized PnL of 0.
\<close>

theorem update_position_ignores_price:
  "update_position ''c'' Sell 5 110 (update_position ''c'' Buy 5 100 example_risk_manager)
     = update_position ''c'' Sell 5 90 (update_position ''c'' Buy 5 100 example_risk_manager)
   \<and> realized_pnl (fst (get_or_create_state ''c''
         (update_position ''c'' Sell 5 110 (update_position ''c'' Buy 5 100 example_risk_manager)))) = 0"
  by (simp add: update_position_def get_or_create_state_def put_state_def Let_def
        example_risk_manager_def new_client_state_def)

section \<open>Cancelling\<close>

text \<open>
  C3 (as amended).  \<open>cancel_order\<close> looks at the status of the order, not at the queues.
  For an order whose status is filled or canceled it fails, the endpoint answers with the
  cannot-cancel error, and the book is unchanged; for an order whose status is pending,
  active or partially filled it succeeds and marks the order canceled, whether the order
  rests in a queue or not.  It succeeds only for a registered order that is neither filled
  nor canceled, and a cancel that fails leaves the whole book, the order record included,
  unchanged.
\<close>

theorem cancel_order_status_gate:
  "(\<forall>x. orders b oid = Some x \<and> (status x = Filled \<or> status x = Canceled) \<longrightarrow>
        cancel_order oid b = (False, b) \<and> cancel_endpoint oid b = (Http_400_cannot_cancel, b))
   \<and> (\<forall>x. orders b oid = Some x
            \<and> (status x = Pending \<or> status x = Active \<or> status x = Partially_filled) \<longrightarrow>
          fst (cancel_order oid b) \<and> fst (cancel_endpoint oid b) = Cancel_response oid
          \<and> map_option status (orders (snd (cancel_order oid b)) oid) = Some Canceled)
   \<and> (fst (cancel_order oid b) \<longrightarrow>
          (\<exists>x. orders b oid = Some x \<and> status x \<noteq> Filled \<and> status x \<noteq> Canceled))
   \<and> (\<not> fst (cancel_order oid b) \<longrightarrow> snd (cancel_order oid b) = b)"
  by (auto simp: cancel_order_def cancel_endpoint_def get_order_def Let_def upd_order_def
      split: option.splits)

text \<open>The seller of \<open>sold_book\<close> is filled, the buyer still rests.\<close>

theorem cancel_order_status_gate_witness:
  "map_option status (orders sold_book ''s'') = Some Filled
   \<and> cancel_order ''s'' sold_book = (False, sold_book)
   \<and> cancel_endpoint ''s'' sold_book = (Http_400_cannot_cancel, sold_book)
   \<and> map_option status (orders sold_book ''b1'') = Some Partially_filled
   \<and> fst (cancel_order ''b1'' sold_book)
   \<and> map_option status (orders (snd (cancel_order ''b1'' sold_book)) ''b1'') = Some Canceled"
proof -
  have s: "map_option status (orders sold_book ''s'') = Some Filled"
    by code_simp
  have m: "map_option status (orders sold_book ''b1'') = Some Partially_filled"
    by code_simp
  from s obtain x where x: "orders sold_book ''s'' = Some x" "status x = Filled"
    by auto
  from m obtain y where y: "orders sold_book ''b1'' = Some y" "status y = Partially_filled"
    by auto
  show ?thesis
    using cancel_order_status_gate [of sold_book "''s''"]
      cancel_order_status_gate [of sold_book "''b1''"] s m x y
    by auto
qed

text \<open>
  C3 as stated fails: the market buy that swept \<open>two_asks_book\<close> is partially filled and
  rests in no queue, and its cancel succeeds.
\<close>

theorem cancel_unqueued_order_succeeds:
  "map_option (\<lambda>x. (otype x, status x)) (orders swept_book ''t'') = Some (Market, Partially_filled)
   \<and> all_entries swept_book = []
   \<and> fst (cancel_order ''t'' swept_book)
   \<and> map_option status (orders (snd (cancel_order ''t'' swept_book)) ''t'') = Some Canceled"
  by code_simp

section \<open>Limit orders and the returned fills\<close>

text \<open>
  C1 at its failing input: a limit buy of 5 at 100 against asks of 1 at 99 and 10 at 105.
  The price is compared with the best ask once; the sweep that follows has no price
  bound, and the second fill is at 105.
\<close>

theorem limit_buy_filled_above_limit:
  "fst (add_order example_clock (new_order ''t'' ''taker'' Buy Limit (Some 100) 5) two_asks_book)
     = Inr [\<lparr>fill_order_id = ''t'', fill_client_id = ''taker'', fill_side = Buy, fill_price = 99,
             fill_size = 1, fill_timestamp = 0\<rparr>,
            \<lparr>fill_order_id = ''t'', fill_client_id = ''taker'', fill_side = Buy, fill_price = 105,
             fill_size = 4, fill_timestamp = 2\<rparr>]"
  by code_simp

text \<open>
  C2 at its failing input: a limit sell of 3 at 99.95 against a bid of 10 at 100.  Both
  fills of the match enter the fill history; the returned list holds the taker's alone.
\<close>

theorem returned_fills_hold_taker_only:
  "fst (add_order example_clock (new_order ''s'' ''taker'' Sell Limit (Some (1999 / 20)) 3) one_bid_book)
     = Inr [\<lparr>fill_order_id = ''s'', fill_client_id = ''taker'', fill_side = Sell, fill_price = 100,
             fill_size = 3, fill_timestamp = 0\<rparr>]
   \<and> fills (snd (add_order example_clock (new_order ''s'' ''taker'' Sell Limit (Some (1999 / 20)) 3) one_bid_book))
     = [\<lparr>fill_order_id = ''s'', fill_client_id = ''taker'', fill_side = Sell, fill_price = 100,
             fill_size = 3, fill_timestamp = 0\<rparr>,
        \<lparr>fill_order_id = ''b1'', fill_client_id = ''maker'', fill_side = Buy, fill_price = 100,
             fill_size = 3, fill_timestamp = 1\<rparr>]"
  by code_simp

section \<open>The operations keep the book consistent\<close>

lemma opposite_book_own: "opposite_book sd b = own_book (opposite_side sd) b"
  by (simp add: opposite_book_def own_book_def opposite_side_def)

lemma opposite_side_neq [simp]: "opposite_side sd \<noteq> sd" "sd \<noteq> opposite_side sd"
  by (cases sd; simp add: opposite_side_def)+

lemma side_cases: "s = sd \<or> s = opposite_side sd"
  by (cases s; cases sd; simp add: opposite_side_def)

lemma own_book_set_own [simp]:
  "own_book s (set_own_book sd d b) = (if s = sd then d else own_book s b)"
  by (cases s; cases sd; simp add: own_book_def set_own_book_def)

lemma own_book_set_opposite [simp]:
  "own_book s (set_opposite_book sd d b) = (if s = sd then own_book s b else d)"
  by (cases s; cases sd; simp add: own_book_def set_opposite_book_def)

lemma own_book_upd_order [simp]: "own_book s (upd_order oid f b) = own_book s b"
  by (simp add: own_book_def upd_order_def)

lemma orders_set_own [simp]: "orders (set_own_book sd d b) = orders b"
  by (simp add: set_own_book_def)

lemma orders_set_opposite [simp]: "orders (set_opposite_book sd d b) = orders b"
  by (simp add: set_opposite_book_def)

lemma fills_set_own [simp]: "fills (set_own_book sd d b) = fills b"
  by (simp add: set_own_book_def)

lemma fills_set_opposite [simp]: "fills (set_opposite_book sd d b) = fills b"
  by (simp add: set_opposite_book_def)

lemma fills_upd_order [simp]: "fills (upd_order oid f b) = fills b"
  by (simp add: upd_order_def)

lemma orders_upd_order [simp]:
  "orders (upd_order oid f b) = (orders b)(oid \<mapsto> f (order_of b oid))"
  by (simp add: upd_order_def)

lemma order_of_Some: "orders b oid = Some x \<Longrightarrow> order_of b oid = x"
  by (simp add: order_of_def)

lemma own_book_fields [simp]:
  "own_book s (b\<lparr>fills := fs\<rparr>) = own_book s b"
  "own_book s (b\<lparr>clock_reads := n\<rparr>) = own_book s b"
  "own_book s (b\<lparr>orders := m\<rparr>) = own_book s b"
  "own_book s (b\<lparr>last_trade_price := lp\<rparr>) = own_book s b"
  "own_book s (b\<lparr>last_trade_size := ls\<rparr>) = own_book s b"
  by (simp_all add: own_book_def)

lemma order_of_fields [simp]:
  "order_of (b\<lparr>fills := fs\<rparr>) = order_of b"
  "order_of (b\<lparr>clock_reads := n\<rparr>) = order_of b"
  "order_of (b\<lparr>last_trade_price := lp\<rparr>) = order_of b"
  "order_of (b\<lparr>last_trade_size := ls\<rparr>) = order_of b"
  by (simp_all add: order_of_def fun_eq_iff)

lemma order_of_set_book [simp]:
  "order_of (set_own_book sd d b) = order_of b"
  "order_of (set_opposite_book sd d b) = order_of b"
  by (simp_all add: order_of_def fun_eq_iff)

lemma order_of_upd_order [simp]:
  "order_of (upd_order oid f b) oid' = (if oid' = oid then f (order_of b oid) else order_of b oid')"
  by (simp add: upd_order_def order_of_def)

lemma clock_reads_frame [simp]:
  "clock_reads (upd_order oid f b) = clock_reads b"
  "clock_reads (set_opposite_book sd d b) = clock_reads b"
  "clock_reads (set_own_book sd d b) = clock_reads b"
  by (simp_all add: upd_order_def set_opposite_book_def set_own_book_def)

lemma orders_fields [simp]:
  "orders (b\<lparr>fills := fs\<rparr>) = orders b"
  by simp

text \<open>What a pass of the loop body does to the index, the fills and the queues.\<close>

lemma match_step_orders:
  assumes t: "orders b tid = Some T" and m: "orders b oid = Some M" and ne: "oid \<noteq> tid"
  shows "orders (snd (match_step clk sd tid p oid b)) = (orders b)
           (tid \<mapsto> T\<lparr>remaining_size := remaining_size T - min (remaining_size T) (remaining_size M)\<rparr>,
            oid \<mapsto> M\<lparr>remaining_size := remaining_size M - min (remaining_size T) (remaining_size M),
                     status := (if remaining_size M - min (remaining_size T) (remaining_size M) = 0
                                then Filled else Partially_filled)\<rparr>)"
proof -
  have oT: "order_of b tid = T" and oM: "order_of b oid = M"
    using t m by (simp_all add: order_of_def)
  show ?thesis
    using ne by (simp add: match_step_def Let_def set_queue_def oT oM)
qed

lemma match_step_fills:
  assumes t: "orders b tid = Some T" and m: "orders b oid = Some M"
  shows "fills (snd (match_step clk sd tid p oid b)) = fills b @
           [\<lparr>fill_order_id = order_id T, fill_client_id = client_id T, fill_side = side T,
             fill_price = p, fill_size = min (remaining_size T) (remaining_size M),
             fill_timestamp = clk (clock_reads b)\<rparr>,
            \<lparr>fill_order_id = oid, fill_client_id = client_id M, fill_side = side M,
             fill_price = p, fill_size = min (remaining_size T) (remaining_size M),
             fill_timestamp = clk (clock_reads b + 1)\<rparr>]"
    and "fst (match_step clk sd tid p oid b) =
           \<lparr>fill_order_id = order_id T, fill_client_id = client_id T, fill_side = side T,
             fill_price = p, fill_size = min (remaining_size T) (remaining_size M),
             fill_timestamp = clk (clock_reads b)\<rparr>"
    and "clock_reads (snd (match_step clk sd tid p oid b)) = clock_reads b + 2"
proof -
  have oT: "order_of b tid = T" and oM: "order_of b oid = M"
    using t m by (simp_all add: order_of_def)
  show "fills (snd (match_step clk sd tid p oid b)) = fills b @
           [\<lparr>fill_order_id = order_id T, fill_client_id = client_id T, fill_side = side T,
             fill_price = p, fill_size = min (remaining_size T) (remaining_size M),
             fill_timestamp = clk (clock_reads b)\<rparr>,
            \<lparr>fill_order_id = oid, fill_client_id = client_id M, fill_side = side M,
             fill_price = p, fill_size = min (remaining_size T) (remaining_size M),
             fill_timestamp = clk (clock_reads b + 1)\<rparr>]"
    by (simp add: match_step_def Let_def set_queue_def oT oM)
  show "fst (match_step clk sd tid p oid b) =
           \<lparr>fill_order_id = order_id T, fill_client_id = client_id T, fill_side = side T,
             fill_price = p, fill_size = min (remaining_size T) (remaining_size M),
             fill_timestamp = clk (clock_reads b)\<rparr>"
    by (simp add: match_step_def Let_def oT oM)
  show "clock_reads (snd (match_step clk sd tid p oid b)) = clock_reads b + 2"
    by (simp add: match_step_def Let_def set_queue_def)
qed

lemma match_step_book:
  assumes t: "orders b tid = Some T" and m: "orders b oid = Some M" and ne: "oid \<noteq> tid"
    and q: "queue_at (opposite_book sd b) p = e # rest"
  shows "own_book s (snd (match_step clk sd tid p oid b)) =
           (if s = sd then own_book s b
            else AList.update p
                   (if remaining_size M - min (remaining_size T) (remaining_size M) = 0 then rest
                    else (oid, remaining_size M - min (remaining_size T) (remaining_size M)) # rest)
                   (own_book s b))"
proof -
  have oT: "order_of b tid = T" and oM: "order_of b oid = M"
    using t m by (simp_all add: order_of_def)
  have q': "queue_at (own_book (opposite_side sd) b) p = e # rest"
    using q by (simp add: opposite_book_own)
  show ?thesis
  proof (cases "s = sd")
    case True
    then show ?thesis
      using ne by (simp add: match_step_def Let_def set_queue_def oT oM opposite_book_own)
  next
    case False
    then have "s = opposite_side sd"
      using side_cases [of s sd] by simp
    then show ?thesis
      using ne q' by (simp add: match_step_def Let_def set_queue_def oT oM opposite_book_own)
  qed
qed

lemma distinct_keys_update: "distinct (keys d) \<Longrightarrow> distinct (keys (AList.update p q d))"
  by (simp add: keys_def distinct_update)

lemma match_step_inv:
  assumes inv: "book_inv_but {tid} b" and ab: "absent tid b" and t: "orders b tid = Some T"
    and q: "queue_at (opposite_book sd b) p = (oid, avail) # rest"
    and pos: "0 < remaining_size T"
  shows "book_inv_but {tid} (snd (match_step clk sd tid p oid b))
         \<and> absent tid (snd (match_step clk sd tid p oid b))"
proof -
  define so where "so = opposite_side sd"
  define b' where "b' = snd (match_step clk sd tid p oid b)"
  have oi: "orders_inv b" and fi: "fills_inv b" and ei: "entries_inv b" and qi: "queues_inv b"
    and ri: "resting_inv {tid} b"
    using inv by (simp_all add: book_inv_but_def)
  have q0: "queue_at (own_book so b) p = (oid, avail) # rest"
    using q by (simp add: opposite_book_own so_def)
  then have "(oid, avail) \<in> set (queue_at (own_book so b) p)"
    by simp
  with ei obtain M where m: "orders b oid = Some M" and mside: "side M = so"
    and mprice: "price M = Some p" and mrem: "remaining_size M = avail" and mpos: "0 < avail"
    and mrest: "resting M"
    unfolding entries_inv_def by blast
  have ne: "oid \<noteq> tid"
    using ab q0 unfolding absent_def by (metis fst_conv image_eqI list.set_intros(1))
  define f where "f = min (remaining_size T) avail"
  have fpos: "0 < f" and fT: "f \<le> remaining_size T" and fM: "f \<le> avail"
    using pos mpos by (simp_all add: f_def)
  define T' where "T' = T\<lparr>remaining_size := remaining_size T - f\<rparr>"
  define M' where "M' = M\<lparr>remaining_size := avail - f,
                           status := (if avail - f = 0 then Filled else Partially_filled)\<rparr>"
  define q' where "q' = (if avail - f = 0 then rest else (oid, avail - f) # rest)"
  have O: "orders b' = (orders b)(tid \<mapsto> T', oid \<mapsto> M')"
    using match_step_orders [OF t m ne, of clk sd p]
    by (simp add: b'_def T'_def M'_def f_def mrem)
  have Tf: "order_id T = tid" "0 \<le> remaining_size T" "remaining_size T \<le> osize T"
      "filled_size b tid = osize T - remaining_size T"
    using oi t unfolding orders_inv_def by blast+
  have Mf: "order_id M = oid" "0 \<le> remaining_size M" "remaining_size M \<le> osize M"
      "filled_size b oid = osize M - remaining_size M"
    using oi m unfolding orders_inv_def by blast+
  have tid_id: "order_id T = tid"
    by (rule Tf)
  have F: "\<exists>f1 f2. fills b' = fills b @ [f1, f2] \<and> fill_order_id f1 = tid \<and> fill_order_id f2 = oid
             \<and> fill_size f1 = f \<and> fill_size f2 = f"
    using match_step_fills(1) [OF t m, of clk sd p] tid_id
    by (simp add: b'_def f_def mrem)
  have Q: "queue_at (own_book s b') p' =
             (if s = so \<and> p' = p then q' else queue_at (own_book s b) p')" for s p'
    using match_step_book [OF t m ne q, of s clk] side_cases [of s sd]
    by (auto simp add: b'_def q'_def f_def mrem queue_at_update so_def)
  have K: "distinct (keys (own_book s b'))" for s
    using match_step_book [OF t m ne q, of s clk] qi
    by (simp add: b'_def queues_inv_def distinct_keys_update)
  have q'_sub: "set q' \<subseteq> insert (oid, avail - f) (set rest)"
    by (auto simp: q'_def)
  have q'_ids: "fst ` set q' \<subseteq> fst ` set ((oid, avail) # rest)"
    by (auto simp: q'_def)
  have dq: "distinct (map fst ((oid, avail) # rest))"
    using qi q0 unfolding queues_inv_def by metis
  have nr: "(oid, z) \<notin> set rest" for z
    using dq by (force simp: image_iff)
  have FS: "filled_size b' x = filled_size b x + (if x = tid then f else 0) + (if x = oid then f else 0)" for x
    using F by (auto simp: filled_size_def)
  have 1: "orders_inv b'"
    unfolding orders_inv_def
  proof (intro allI impI)
    fix x y assume xy: "orders b' x = Some y"
    consider "x = tid" | "x = oid" | "x \<noteq> tid" "x \<noteq> oid" by blast
    then show "order_id y = x \<and> 0 \<le> remaining_size y \<and> remaining_size y \<le> osize y
                 \<and> filled_size b' x = osize y - remaining_size y"
    proof cases
      case 1
      then have "y = T'" using xy O ne by simp
      then show ?thesis
        using Tf 1 ne fT fpos by (simp add: FS T'_def)
    next
      case 2
      then have "y = M'" using xy O by simp
      then show ?thesis
        using Mf 2 ne fM fpos mrem by (simp add: FS M'_def)
    next
      case 3
      then have "orders b x = Some y" using xy O by simp
      then have "order_id y = x \<and> 0 \<le> remaining_size y \<and> remaining_size y \<le> osize y
                 \<and> filled_size b x = osize y - remaining_size y"
        using oi unfolding orders_inv_def by blast
      then show ?thesis
        using 3 by (simp add: FS)
    qed
  qed
  have 2: "fills_inv b'"
    using fi F O unfolding fills_inv_def by auto
  have 3: "entries_inv b'"
    unfolding entries_inv_def
  proof (intro allI impI)
    fix s p' x sz assume e: "(x, sz) \<in> set (queue_at (own_book s b') p')"
    show "\<exists>y. orders b' x = Some y \<and> side y = s \<and> price y = Some p'
               \<and> remaining_size y = sz \<and> 0 < sz \<and> resting y"
    proof (cases "s = so \<and> p' = p")
      case True
      with e Q have eq: "(x, sz) \<in> set q'" by simp
      show ?thesis
      proof (cases "x = oid")
        case True
        with eq nr have "sz = avail - f" "avail - f \<noteq> 0"
          by (auto simp: q'_def split: if_splits)
        then show ?thesis
          using True O mside mprice mrest fM \<open>s = so \<and> p' = p\<close>
          by (simp add: M'_def resting_def)
      next
        case False
        with eq q'_sub have "(x, sz) \<in> set (queue_at (own_book so b) p)"
          using q0 by auto
        moreover have "x \<noteq> tid"
          using calculation ab unfolding absent_def by (metis fst_conv image_eqI)
        ultimately show ?thesis
          using ei False O True unfolding entries_inv_def by auto
      qed
    next
      case False
      with e Q have old: "(x, sz) \<in> set (queue_at (own_book s b) p')" by simp
      then obtain y where y: "orders b x = Some y" "side y = s" "price y = Some p'"
          "remaining_size y = sz" "0 < sz" "resting y"
        using ei unfolding entries_inv_def by blast
      have "x \<noteq> tid"
        using old ab unfolding absent_def by (metis fst_conv image_eqI)
      moreover have "x \<noteq> oid"
        using y m mside mprice False by auto
      ultimately show ?thesis
        using y O by simp
    qed
  qed
  have 4: "queues_inv b'"
    unfolding queues_inv_def
  proof (intro conjI allI)
    fix s show "distinct (keys (own_book s b'))" by (rule K)
  next
    fix s p'
    have "distinct (map fst q')"
      using dq by (auto simp: q'_def)
    then show "distinct (map fst (queue_at (own_book s b') p'))"
      using qi Q unfolding queues_inv_def by simp
  qed
  have 5: "resting_inv {tid} b'"
    unfolding resting_inv_def
  proof (intro allI impI)
    fix x y assume a: "orders b' x = Some y \<and> x \<notin> {tid} \<and> resting y"
    show "\<exists>p'. price y = Some p' \<and> x \<in> fst ` set (queue_at (own_book (side y) b') p')"
    proof (cases "x = oid")
      case True
      then have y: "y = M'" using a O by simp
      with a have "avail - f \<noteq> 0" by (auto simp: M'_def resting_def split: if_splits)
      then have "oid \<in> fst ` set q'" by (simp add: q'_def)
      then show ?thesis
        using y True Q mside mprice by (auto simp: M'_def)
    next
      case False
      then have old: "orders b x = Some y" using a O by auto
      then obtain p' where p': "price y = Some p'"
          "x \<in> fst ` set (queue_at (own_book (side y) b) p')"
        using ri a unfolding resting_inv_def by blast
      have "x \<in> fst ` set (queue_at (own_book (side y) b') p')"
      proof (cases "side y = so \<and> p' = p")
        case True
        then have "x \<in> fst ` set ((oid, avail) # rest)" using p' q0 by simp
        then have "x \<in> fst ` set rest" using False by auto
        then have "x \<in> fst ` set q'" by (auto simp: q'_def)
        then show ?thesis using True Q by simp
      next
        case False
        then show ?thesis using p' by (auto simp: Q)
      qed
      then show ?thesis using p' by blast
    qed
  qed
  have abq: "tid \<notin> fst ` set (queue_at (own_book s b) p')" for s p'
    using ab unfolding absent_def by blast
  have 6: "absent tid b'"
    unfolding absent_def
  proof (intro allI)
    fix s p'
    show "tid \<notin> fst ` set (queue_at (own_book s b') p')"
    proof (cases "s = so \<and> p' = p")
      case True
      have "tid \<notin> fst ` set ((oid, avail) # rest)"
        using abq [of so p] q0 by simp
      then have "tid \<notin> fst ` set q'"
        using q'_ids by blast
      then show ?thesis
        using True by (simp add: Q)
    next
      case False
      then show ?thesis
        using abq [of s p'] by (auto simp: Q)
    qed
  qed
  show ?thesis
    using 1 2 3 4 5 6 by (simp add: book_inv_but_def b'_def)
qed

declare match_queue.simps [simp del]

lemma match_queue_matched:
  "matched clk sd tid b0 b \<Longrightarrow> matched clk sd tid b0 (fst (match_queue clk sd tid p b fs))"
proof (induction clk sd tid p b fs rule: match_queue.induct)
  case (1 clk sd tid p b fs)
  show ?case
  proof (cases "queue_at (opposite_book sd b) p")
    case Nil
    then show ?thesis
      using "1.prems" by (simp add: match_queue.simps [of clk sd tid p b fs])
  next
    case (Cons e rest)
    obtain oid avail where e: "e = (oid, avail)" by (cases e)
    note q = Cons [unfolded e]
    show ?thesis
    proof (cases "0 < remaining_size (order_of b tid)")
      case False
      then show ?thesis
        using "1.prems" q by (simp add: match_queue.simps [of clk sd tid p b fs])
    next
      case pos: True
      show ?thesis
      proof (cases "orders b oid = None")
        case True
        have "matched clk sd tid b0 (set_queue sd p rest b)"
          using "1.prems" q True by (rule matched_drop)
        then have "matched clk sd tid b0 (fst (match_queue clk sd tid p (set_queue sd p rest b) fs))"
          using "1.IH"(1) [OF q refl _ True] pos by simp
        then show ?thesis
          using q pos True by (simp add: match_queue.simps [of clk sd tid p b fs])
      next
        case False
        have "matched clk sd tid b0 (snd (match_step clk sd tid p oid b))"
          using "1.prems" q pos False by (rule matched_step)
        then have "matched clk sd tid b0
                     (fst (match_queue clk sd tid p (snd (match_step clk sd tid p oid b))
                        (fs @ [fst (match_step clk sd tid p oid b)])))"
          using "1.IH"(2) [OF q refl _ False] pos by simp
        then show ?thesis
          using q pos False by (auto simp add: match_queue.simps [of clk sd tid p b fs])
      qed
    qed
  qed
qed

lemma match_levels_matched:
  "matched clk sd tid b0 b \<Longrightarrow> matched clk sd tid b0 (fst (match_levels clk sd tid prices b fs))"
proof (induction prices arbitrary: b fs)
  case Nil
  then show ?case by simp
next
  case (Cons p prices)
  show ?case
  proof (cases "remaining_size (order_of b tid) \<le> 0")
    case True
    then show ?thesis using Cons.prems by simp
  next
    case False
    obtain b' fs' where r: "match_queue clk sd tid p b fs = (b', fs')"
      by (cases "match_queue clk sd tid p b fs")
    have "matched clk sd tid b0 b'"
      using match_queue_matched [OF Cons.prems, of p fs] r by simp
    then show ?thesis
      using Cons.IH [of b' fs'] False r by simp
  qed
qed

lemma matched_taker_inv:
  "matched clk sd tid b b' \<Longrightarrow> taker_inv tid b \<Longrightarrow> taker_inv tid b'"
proof (induction rule: matched.induct)
  case matched_refl
  then show ?case .
next
  case (matched_drop b1 p oid avail rest)
  then have "entries_inv b1"
    by (simp add: taker_inv_def book_inv_but_def)
  moreover have "(oid, avail) \<in> set (queue_at (own_book (opposite_side sd) b1) p)"
    using matched_drop.hyps(2) by (simp add: opposite_book_own)
  ultimately have False
    using matched_drop.hyps(3) unfolding entries_inv_def by fastforce
  then show ?case ..
next
  case (matched_step b1 p oid avail rest)
  then have ti: "taker_inv tid b1" by simp
  then obtain T where t: "orders b1 tid = Some T"
    by (auto simp: taker_inv_def)
  then have pos: "0 < remaining_size T"
    using matched_step.hyps(3) by (simp add: order_of_def)
  obtain M where m: "orders b1 oid = Some M"
    using matched_step.hyps(4) by auto
  have "entries_inv b1" "absent tid b1"
    using ti by (simp_all add: taker_inv_def book_inv_but_def)
  have ne: "oid \<noteq> tid"
    using \<open>absent tid b1\<close> matched_step.hyps(2) unfolding absent_def opposite_book_own
    by (metis fst_conv image_eqI list.set_intros(1))
  have "orders (snd (match_step clk sd tid p oid b1)) tid \<noteq> None"
    using match_step_orders [OF t m ne, of clk sd p] ne by simp
  then show ?case
    using match_step_inv [OF _ _ t matched_step.hyps(2) pos, of clk] ti
    by (simp add: taker_inv_def)
qed

lemma queue_at_delete:
  "queue_at (AList.delete k d) p = (if p = k then [] else queue_at d p)"
  by (simp add: queue_at_def delete_conv')

lemma clean_fold_queue_at:
  "queue_at (fold (\<lambda>p d'. if queue_at d' p = [] then AList.delete p d' else d') ks d) p
     = queue_at d p"
  by (induction ks arbitrary: d) (simp_all add: queue_at_delete)

lemma clean_fold_distinct:
  "distinct (keys d) \<Longrightarrow>
   distinct (keys (fold (\<lambda>p d'. if queue_at d' p = [] then AList.delete p d' else d') ks d))"
  by (induction ks arbitrary: d) (simp_all add: keys_def distinct_delete)

lemma queue_at_clean [simp]: "queue_at (clean_empty_queues d) p = queue_at d p"
  by (simp add: clean_empty_queues_def clean_fold_queue_at)

lemma distinct_keys_clean: "distinct (keys d) \<Longrightarrow> distinct (keys (clean_empty_queues d))"
  by (simp add: clean_empty_queues_def clean_fold_distinct)

text \<open>The invariants read the index, the fills and the queues at each price only.\<close>

lemma inv_view_cong:
  assumes "orders b' = orders b" and "fills b' = fills b"
    and "\<And>s p. queue_at (own_book s b') p = queue_at (own_book s b) p"
    and "\<And>s. distinct (keys (own_book s b)) \<Longrightarrow> distinct (keys (own_book s b'))"
  shows "book_inv_but ex b \<Longrightarrow> book_inv_but ex b'"
    and "absent tid b \<Longrightarrow> absent tid b'"
  using assms
  by (simp_all add: book_inv_but_def orders_inv_def fills_inv_def entries_inv_def
        queues_inv_def resting_inv_def absent_def filled_size_def)

lemma taker_inv_clean:
  assumes "taker_inv tid b"
  shows "taker_inv tid (set_opposite_book sd (clean_empty_queues (opposite_book sd b)) b)"
proof -
  let ?b' = "set_opposite_book sd (clean_empty_queues (opposite_book sd b)) b"
  have v: "queue_at (own_book s ?b') p = queue_at (own_book s b) p" for s p
    using side_cases [of s sd] by (auto simp: opposite_book_own)
  have d: "distinct (keys (own_book s b)) \<Longrightarrow> distinct (keys (own_book s ?b'))" for s
    using side_cases [of s sd] by (auto simp: opposite_book_own distinct_keys_clean)
  show ?thesis
    using assms inv_view_cong [of ?b' b, OF _ _ v d]
    by (simp add: taker_inv_def)
qed

lemma taker_inv_upd_taker:
  assumes ti: "taker_inv tid b" and t: "orders b tid = Some T"
    and f: "order_id (f T) = order_id T" "remaining_size (f T) = remaining_size T"
      "osize (f T) = osize T"
  shows "taker_inv tid (upd_order tid f b)"
proof -
  have oT: "order_of b tid = T" using t by (simp add: order_of_def)
  have ab: "\<And>s p z. (tid, z) \<notin> set (queue_at (own_book s b) p)"
    using ti unfolding taker_inv_def absent_def by (force simp: image_iff)
  have "orders_inv (upd_order tid f b)"
    using ti t f by (auto simp add: taker_inv_def book_inv_but_def orders_inv_def oT filled_size_def)
  moreover have "fills_inv (upd_order tid f b)"
    using ti by (auto simp add: taker_inv_def book_inv_but_def fills_inv_def)
  moreover have "entries_inv (upd_order tid f b)"
    using ti ab by (auto simp add: taker_inv_def book_inv_but_def entries_inv_def)
  moreover have "queues_inv (upd_order tid f b)"
    using ti by (simp add: taker_inv_def book_inv_but_def queues_inv_def)
  moreover have "resting_inv {tid} (upd_order tid f b)"
    using ti by (simp add: taker_inv_def book_inv_but_def resting_inv_def)
  moreover have "absent tid (upd_order tid f b)"
    using ti by (simp add: taker_inv_def absent_def)
  ultimately show ?thesis
    by (simp add: taker_inv_def book_inv_but_def)
qed

text \<open>Matching changes the taker's remaining size only, and leaves the taker's side of the book.\<close>

lemma matched_static:
  assumes "matched clk sd tid b b'" and "taker_inv tid b" and "orders b tid = Some T"
  shows "(\<exists>r. orders b' tid = Some (T\<lparr>remaining_size := r\<rparr>)) \<and> own_book sd b' = own_book sd b"
  using assms
proof (induction rule: matched.induct)
  case matched_refl
  have "T = T\<lparr>remaining_size := remaining_size T\<rparr>" by simp
  then show ?case using matched_refl by metis
next
  case (matched_drop b1 p oid avail rest)
  then show ?case by (simp add: set_queue_def)
next
  case (matched_step b1 p oid avail rest)
  then obtain r where t1: "orders b1 tid = Some (T\<lparr>remaining_size := r\<rparr>)"
    and ob: "own_book sd b1 = own_book sd b" by auto
  obtain M where m: "orders b1 oid = Some M"
    using matched_step.hyps(4) by auto
  have "absent tid b1"
    using matched_taker_inv [OF matched_step.hyps(1) matched_step.prems(1)]
    by (simp add: taker_inv_def)
  then have ne: "oid \<noteq> tid"
    using matched_step.hyps(2) unfolding absent_def opposite_book_own
    by (metis fst_conv image_eqI list.set_intros(1))
  show ?case
    using match_step_orders [OF t1 m ne, of clk sd p]
      match_step_book [OF t1 m ne matched_step.hyps(2), of sd clk] ne ob
    by auto
qed

lemma match_market_order_empty:
  "opposite_book (side (order_of b tid)) b = [] \<Longrightarrow>
   match_market_order clk tid b = ([], upd_order tid (\<lambda>x. x\<lparr>status := Rejected\<rparr>) b)"
  by (simp add: match_market_order_def)

lemma match_market_order_result:
  assumes ti: "taker_inv tid b" and t: "orders b tid = Some T"
    and ne: "opposite_book (side T) b \<noteq> []"
  shows "\<exists>b1 r. matched clk (side T) tid b b1 \<and> orders b1 tid = Some (T\<lparr>remaining_size := r\<rparr>)
           \<and> snd (match_market_order clk tid b) =
               upd_order tid
                 (\<lambda>x. x\<lparr>status := (if remaining_size x = 0 then Filled else Partially_filled)\<rparr>)
                 (set_opposite_book (side T) (clean_empty_queues (opposite_book (side T) b1)) b1)"
proof -
  have oT: "order_of b tid = T" using t by (simp add: order_of_def)
  define prices where "prices = (if side T = Sell then rev (sort (keys (opposite_book (side T) b)))
                         else sort (keys (opposite_book (side T) b)))"
  define b1 where "b1 = fst (match_levels clk (side T) tid prices b [])"
  have m: "matched clk (side T) tid b b1"
    unfolding b1_def by (rule match_levels_matched) (rule matched_refl)
  from matched_static [OF m ti t]
  obtain r where r: "orders b1 tid = Some (T\<lparr>remaining_size := r\<rparr>)" by auto
  have "snd (match_market_order clk tid b) =
          upd_order tid
            (\<lambda>x. x\<lparr>status := (if remaining_size x = 0 then Filled else Partially_filled)\<rparr>)
            (set_opposite_book (side T) (clean_empty_queues (opposite_book (side T) b1)) b1)"
    using ne by (simp add: match_market_order_def oT Let_def b1_def prices_def split: prod.splits)
  then show ?thesis using m r by blast
qed

lemma match_market_order_inv:
  assumes ti: "taker_inv tid b" and t: "orders b tid = Some T"
    and ne: "opposite_book (side T) b \<noteq> []"
  shows "taker_inv tid (snd (match_market_order clk tid b))
         \<and> (\<exists>r. orders (snd (match_market_order clk tid b)) tid =
                  Some (T\<lparr>remaining_size := r,
                          status := (if r = 0 then Filled else Partially_filled)\<rparr>))
         \<and> own_book (side T) (snd (match_market_order clk tid b)) = own_book (side T) b"
proof -
  from match_market_order_result [OF ti t ne, of clk]
  obtain b1 r where m: "matched clk (side T) tid b b1"
    and r: "orders b1 tid = Some (T\<lparr>remaining_size := r\<rparr>)"
    and res: "snd (match_market_order clk tid b) =
               upd_order tid
                 (\<lambda>x. x\<lparr>status := (if remaining_size x = 0 then Filled else Partially_filled)\<rparr>)
                 (set_opposite_book (side T) (clean_empty_queues (opposite_book (side T) b1)) b1)"
    by blast
  let ?b2 = "set_opposite_book (side T) (clean_empty_queues (opposite_book (side T) b1)) b1"
  have t1: "taker_inv tid b1"
    using m ti by (rule matched_taker_inv)
  then have t2: "taker_inv tid ?b2"
    by (rule taker_inv_clean)
  have r2: "orders ?b2 tid = Some (T\<lparr>remaining_size := r\<rparr>)"
    using r by simp
  have "taker_inv tid (snd (match_market_order clk tid b))"
    unfolding res by (rule taker_inv_upd_taker [OF t2 r2]) simp_all
  moreover have "orders (snd (match_market_order clk tid b)) tid =
                  Some (T\<lparr>remaining_size := r,
                          status := (if r = 0 then Filled else Partially_filled)\<rparr>)"
    unfolding res using r by (simp add: order_of_def)
  moreover have "own_book (side T) (snd (match_market_order clk tid b)) = own_book (side T) b"
    unfolding res using matched_static [OF m ti t] by simp
  ultimately show ?thesis by blast
qed

lemma register_taker_inv:
  assumes inv: "book_inv b" and fresh: "orders b (order_id x) = None" and sz: "0 \<le> osize x"
  shows "taker_inv (order_id x)
           (b\<lparr>orders := (orders b)(order_id x \<mapsto> x\<lparr>remaining_size := osize x\<rparr>)\<rparr>)"
proof -
  let ?tid = "order_id x"
  let ?b' = "b\<lparr>orders := (orders b)(?tid \<mapsto> x\<lparr>remaining_size := osize x\<rparr>)\<rparr>"
  have oi: "orders_inv b" and fi: "fills_inv b" and ei: "entries_inv b" and qi: "queues_inv b"
    and ri: "resting_inv {} b"
    using inv by (simp_all add: book_inv_def book_inv_but_def)
  have nofill: "filter (\<lambda>f. fill_order_id f = ?tid) (fills b) = []"
    using fi fresh unfolding fills_inv_def by (auto simp: filter_empty_conv)
  have ab: "(?tid, z) \<notin> set (queue_at (own_book s b) p)" for s p z
    using ei fresh unfolding entries_inv_def by fastforce
  have "orders_inv ?b'"
    using oi sz nofill by (auto simp: orders_inv_def filled_size_def)
  moreover have "fills_inv ?b'"
    using fi by (auto simp: fills_inv_def)
  moreover have "entries_inv ?b'"
    using ei ab by (auto simp: entries_inv_def)
  moreover have "queues_inv ?b'"
    using qi by (simp add: queues_inv_def)
  moreover have "resting_inv {?tid} ?b'"
    using ri by (simp add: resting_inv_def)
  moreover have "absent ?tid ?b'"
    using ab by (force simp: absent_def image_iff)
  ultimately show ?thesis
    by (simp add: taker_inv_def book_inv_but_def)
qed

lemma taker_inv_close:
  assumes ti: "taker_inv tid b" and t: "orders b tid = Some T" and nr: "\<not> resting T"
  shows "book_inv b"
proof -
  have "resting_inv {} b"
    using ti t nr unfolding taker_inv_def book_inv_but_def resting_inv_def
    by (metis insert_iff option.inject)
  then show ?thesis
    using ti by (simp add: taker_inv_def book_inv_but_def book_inv_def)
qed

lemma taker_inv_rest:
  assumes ti: "taker_inv tid b" and t: "orders b tid = Some T" and lim: "otype T = Limit"
    and pr: "price T = Some p" and pos: "0 < remaining_size T"
    and st: "st = Active \<or> st = Partially_filled"
    and O: "orders b' = (orders b)(tid \<mapsto> T\<lparr>status := st\<rparr>)"
    and F: "fills b' = fills b"
    and B: "\<And>s. own_book s b' =
              (if s = side T
               then AList.update p (queue_at (own_book s b) p @ [(tid, remaining_size T)]) (own_book s b)
               else own_book s b)"
  shows "book_inv b'"
proof -
  have oi: "orders_inv b" and fi: "fills_inv b" and ei: "entries_inv b" and qi: "queues_inv b"
    and ri: "resting_inv {tid} b" and ab: "absent tid b"
    using ti by (simp_all add: taker_inv_def book_inv_but_def)
  have abq: "tid \<notin> fst ` set (queue_at (own_book s b) p')" for s p'
    using ab unfolding absent_def by blast
  have Q: "queue_at (own_book s b') p' =
             (if s = side T \<and> p' = p then queue_at (own_book s b) p' @ [(tid, remaining_size T)]
              else queue_at (own_book s b) p')" for s p'
    by (auto simp: B queue_at_update)
  have Tf: "order_id T = tid" "0 \<le> remaining_size T" "remaining_size T \<le> osize T"
      "filled_size b tid = osize T - remaining_size T"
    using oi t unfolding orders_inv_def by blast+
  have FS: "filled_size b' x = filled_size b x" for x
    by (simp add: filled_size_def F)
  have 1: "orders_inv b'"
    unfolding orders_inv_def
  proof (intro allI impI)
    fix x y assume xy: "orders b' x = Some y"
    show "order_id y = x \<and> 0 \<le> remaining_size y \<and> remaining_size y \<le> osize y
            \<and> filled_size b' x = osize y - remaining_size y"
    proof (cases "x = tid")
      case True
      then have "y = T\<lparr>status := st\<rparr>" using xy O by simp
      then show ?thesis using Tf True by (simp add: FS)
    next
      case False
      then have "orders b x = Some y" using xy O by simp
      then have "order_id y = x \<and> 0 \<le> remaining_size y \<and> remaining_size y \<le> osize y
                 \<and> filled_size b x = osize y - remaining_size y"
        using oi unfolding orders_inv_def by blast
      then show ?thesis by (simp add: FS)
    qed
  qed
  have 2: "fills_inv b'"
    using fi F O unfolding fills_inv_def by auto
  have 3: "entries_inv b'"
    unfolding entries_inv_def
  proof (intro allI impI)
    fix s p' x sz assume e: "(x, sz) \<in> set (queue_at (own_book s b') p')"
    show "\<exists>y. orders b' x = Some y \<and> side y = s \<and> price y = Some p'
               \<and> remaining_size y = sz \<and> 0 < sz \<and> resting y"
    proof (cases "x = tid")
      case True
      then have "(tid, sz) \<notin> set (queue_at (own_book s b) p')"
        using abq [of s p'] by (force simp: image_iff)
      with e True have "s = side T \<and> p' = p \<and> sz = remaining_size T"
        by (auto simp: Q split: if_splits)
      then show ?thesis
        using True O pr pos lim st by (auto simp: resting_def)
    next
      case False
      with e have "(x, sz) \<in> set (queue_at (own_book s b) p')"
        by (auto simp: Q split: if_splits)
      then obtain y where "orders b x = Some y \<and> side y = s \<and> price y = Some p'
               \<and> remaining_size y = sz \<and> 0 < sz \<and> resting y"
        using ei unfolding entries_inv_def by blast
      then show ?thesis using False O by simp
    qed
  qed
  have 4: "queues_inv b'"
    unfolding queues_inv_def
  proof (intro conjI allI)
    fix s show "distinct (keys (own_book s b'))"
      using qi unfolding queues_inv_def by (simp add: B distinct_keys_update)
  next
    fix s p'
    have "distinct (map fst (queue_at (own_book s b) p'))"
      using qi unfolding queues_inv_def by blast
    then show "distinct (map fst (queue_at (own_book s b') p'))"
      using abq [of s p'] by (auto simp: Q)
  qed
  have 5: "resting_inv {} b'"
    unfolding resting_inv_def
  proof (intro allI impI)
    fix x y assume a: "orders b' x = Some y \<and> x \<notin> {} \<and> resting y"
    show "\<exists>p'. price y = Some p' \<and> x \<in> fst ` set (queue_at (own_book (side y) b') p')"
    proof (cases "x = tid")
      case True
      then have "y = T\<lparr>status := st\<rparr>" using a O by simp
      then show ?thesis using True pr by (auto simp: Q)
    next
      case False
      then have "orders b x = Some y" using a O by simp
      then obtain p' where "price y = Some p'"
          "x \<in> fst ` set (queue_at (own_book (side y) b) p')"
        using ri a False unfolding resting_inv_def by blast
      then show ?thesis by (auto simp: Q)
    qed
  qed
  show ?thesis
    using 1 2 3 4 5 by (simp add: book_inv_def book_inv_but_def)
qed

lemma cancel_order_inv:
  assumes inv: "book_inv b"
  shows "book_inv (snd (cancel_order oid b))"
proof (cases "orders b oid")
  case None
  then show ?thesis using inv by (simp add: cancel_order_def)
next
  case (Some x)
  show ?thesis
  proof (cases "status x = Filled \<or> status x = Canceled")
    case True
    then show ?thesis using inv Some by (simp add: cancel_order_def)
  next
    case False
    define b1 where "b1 = (case price x of
                        None \<Rightarrow> b
                      | Some p \<Rightarrow>
                          if p \<in> set (keys (own_book (side x) b)) then
                            let new_queue = filter (\<lambda>(i, sz). i \<noteq> oid) (queue_at (own_book (side x) b) p)
                            in if new_queue \<noteq> []
                               then set_own_book (side x) (AList.update p new_queue (own_book (side x) b)) b
                               else set_own_book (side x) (AList.delete p (own_book (side x) b)) b
                          else b)"
    define b' where "b' = upd_order oid (\<lambda>x. x\<lparr>status := Canceled\<rparr>) b1"
    have res: "snd (cancel_order oid b) = b'"
      using Some False by (simp add: cancel_order_def b'_def b1_def Let_def)
    have oi: "orders_inv b" and fi: "fills_inv b" and ei: "entries_inv b" and qi: "queues_inv b"
      and ri: "resting_inv {} b"
      using inv by (simp_all add: book_inv_def book_inv_but_def)
    have nokey: "p \<notin> set (keys d) \<Longrightarrow> queue_at d p = []" for p d
      by (simp add: queue_at_def keys_def map_of_eq_None_iff [THEN iffD2])
    have Q1: "queue_at (own_book s b1) p' =
               (if s = side x \<and> price x = Some p'
                then filter (\<lambda>(i, sz). i \<noteq> oid) (queue_at (own_book s b) p')
                else queue_at (own_book s b) p')" for s p'
    proof (cases "price x")
      case None
      then show ?thesis by (simp add: b1_def)
    next
      case (Some p)
      show ?thesis
      proof (cases "p \<in> set (keys (own_book (side x) b))")
        case True
        then show ?thesis
          using Some
          by (auto simp: b1_def Let_def queue_at_update queue_at_delete)
      next
        case False
        then have "queue_at (own_book (side x) b) p = []" by (rule nokey)
        then show ?thesis
          using Some False by (auto simp: b1_def)
      qed
    qed
    have K1: "distinct (keys (own_book s b1))" for s
    proof -
      have d: "distinct (keys (own_book s b))" for s
        using qi unfolding queues_inv_def by blast
      have dd: "distinct (keys (AList.delete p (own_book s b)))" for p s
        using d [of s] by (simp add: keys_def distinct_delete)
      show ?thesis
        using d [of s] dd
        by (cases "price x") (auto simp: b1_def Let_def distinct_keys_update)
    qed
    have O1: "orders b1 = orders b" and F1: "fills b1 = fills b"
      by (cases "price x"; simp add: b1_def Let_def)+
    have O: "orders b' = (orders b)(oid \<mapsto> x\<lparr>status := Canceled\<rparr>)"
      using Some by (simp add: b'_def O1 order_of_def)
    have F: "fills b' = fills b"
      by (simp add: b'_def F1)
    have Q: "queue_at (own_book s b') p' =
               (if s = side x \<and> price x = Some p'
                then filter (\<lambda>(i, sz). i \<noteq> oid) (queue_at (own_book s b) p')
                else queue_at (own_book s b) p')" for s p'
      by (simp add: b'_def Q1)
    have sub: "set (queue_at (own_book s b') p') \<subseteq> set (queue_at (own_book s b) p')" for s p'
      by (auto simp: Q)
    have FS: "filled_size b' z = filled_size b z" for z
      by (simp add: filled_size_def F)
    have 1: "orders_inv b'"
      unfolding orders_inv_def
    proof (intro allI impI)
      fix z y assume zy: "orders b' z = Some y"
      have xf: "order_id x = oid \<and> 0 \<le> remaining_size x \<and> remaining_size x \<le> osize x
                 \<and> filled_size b oid = osize x - remaining_size x"
        using oi Some unfolding orders_inv_def by blast
      show "order_id y = z \<and> 0 \<le> remaining_size y \<and> remaining_size y \<le> osize y
              \<and> filled_size b' z = osize y - remaining_size y"
      proof (cases "z = oid")
        case True
        then have "y = x\<lparr>status := Canceled\<rparr>" using zy O by simp
        then show ?thesis using xf True by (simp add: FS)
      next
        case False
        then have "orders b z = Some y" using zy O by simp
        then have "order_id y = z \<and> 0 \<le> remaining_size y \<and> remaining_size y \<le> osize y
                   \<and> filled_size b z = osize y - remaining_size y"
          using oi unfolding orders_inv_def by blast
        then show ?thesis by (simp add: FS)
      qed
    qed
    have 2: "fills_inv b'"
      using fi F O unfolding fills_inv_def by auto
    have 3: "entries_inv b'"
      unfolding entries_inv_def
    proof (intro allI impI)
      fix s p' z sz assume e: "(z, sz) \<in> set (queue_at (own_book s b') p')"
      then have old: "(z, sz) \<in> set (queue_at (own_book s b) p')"
        using sub by blast
      then obtain y where y: "orders b z = Some y" "side y = s" "price y = Some p'"
          "remaining_size y = sz" "0 < sz" "resting y"
        using ei unfolding entries_inv_def by blast
      have "z \<noteq> oid"
      proof
        assume "z = oid"
        then have "y = x" using y Some by simp
        then have "s = side x \<and> price x = Some p'" using y by simp
        then show False using e \<open>z = oid\<close> by (auto simp: Q)
      qed
      then show "\<exists>y. orders b' z = Some y \<and> side y = s \<and> price y = Some p'
               \<and> remaining_size y = sz \<and> 0 < sz \<and> resting y"
        using y O by simp
    qed
    have 4: "queues_inv b'"
      unfolding queues_inv_def
    proof (intro conjI allI)
      fix s show "distinct (keys (own_book s b'))"
        using K1 by (simp add: b'_def)
    next
      fix s p'
      have "distinct (map fst (queue_at (own_book s b) p'))"
        using qi unfolding queues_inv_def by blast
      then show "distinct (map fst (queue_at (own_book s b') p'))"
        by (auto simp: Q distinct_map_filter)
    qed
    have 5: "resting_inv {} b'"
      unfolding resting_inv_def
    proof (intro allI impI)
      fix z y assume a: "orders b' z = Some y \<and> z \<notin> {} \<and> resting y"
      have ne: "z \<noteq> oid"
        using a O by (auto simp: resting_def)
      then have "orders b z = Some y" using a O by simp
      then obtain p' where p': "price y = Some p'"
          "z \<in> fst ` set (queue_at (own_book (side y) b) p')"
        using ri a unfolding resting_inv_def by blast
      have "z \<in> fst ` set (queue_at (own_book (side y) b') p')"
        using p'(2) ne by (force simp: Q image_iff)
      then show "\<exists>p'. price y = Some p' \<and> z \<in> fst ` set (queue_at (own_book (side y) b') p')"
        using p'(1) by blast
    qed
    show ?thesis
      using 1 2 3 4 5 by (simp add: res book_inv_def book_inv_but_def)
  qed
qed

lemma add_limit_order_inv:
  assumes ti: "taker_inv tid b" and t: "orders b tid = Some T" and lim: "otype T = Limit"
    and st: "status T = Pending" and pos: "0 < remaining_size T"
  shows "book_inv (snd (add_limit_order clk tid b))"
proof -
  have oT: "order_of b tid = T" using t by (simp add: order_of_def)
  have nr: "\<not> resting T" using st by (simp add: resting_def)
  have inv0: "book_inv b" using ti t nr by (rule taker_inv_close)
  show ?thesis
  proof (cases "price T")
    case None
    then show ?thesis using inv0 by (simp add: add_limit_order_def oT)
  next
    case (Some raw)
    show ?thesis
    proof (cases "round_price b raw")
      case (Inl e)
      then show ?thesis using inv0 Some by (simp add: add_limit_order_def oT)
    next
      case (Inr p)
      define T1 where "T1 = T\<lparr>price := Some p\<rparr>"
      define b1 where "b1 = upd_order tid (\<lambda>x. x\<lparr>price := Some p\<rparr>) b"
      define sd where "sd = side T"
      have ti1: "taker_inv tid b1"
        unfolding b1_def by (rule taker_inv_upd_taker [OF ti t]) simp_all
      have t1: "orders b1 tid = Some T1"
        by (simp add: b1_def T1_def oT)
      have o1: "order_of b1 tid = T1"
        using t1 by (simp add: order_of_def)
      have s1: "side T1 = sd" by (simp add: T1_def sd_def)
      define crosses where "crosses \<longleftrightarrow> opposite_book sd b1 \<noteq> [] \<and>
          (if sd = Buy then p \<ge> Min (set (keys (opposite_book sd b1)))
           else p \<le> Max (set (keys (opposite_book sd b1))))"
      define b2 where "b2 = (if crosses then snd (match_market_order clk tid b1) else b1)"
      define b3 where "b3 = set_own_book sd
                 (AList.update p (queue_at (own_book sd b2) p @ [(tid, remaining_size (order_of b2 tid))])
                    (own_book sd b2)) b2"
      have res: "snd (add_limit_order clk tid b) =
                   (if 0 < remaining_size (order_of b2 tid)
                    then (if status (order_of b3 tid) = Pending
                          then upd_order tid (\<lambda>x. x\<lparr>status := Active\<rparr>) b3 else b3)
                    else b2)"
        using Some Inr
        by (simp add: add_limit_order_def oT Let_def case_prod_beta b1_def [symmetric] o1 s1
              b2_def b3_def crosses_def)
      show ?thesis
      proof (cases crosses)
        case True
        then have ne: "opposite_book (side T1) b1 \<noteq> []"
          by (simp add: crosses_def s1)
        from match_market_order_inv [OF ti1 t1 ne, of clk] True
        obtain r where ti2: "taker_inv tid b2"
          and t2: "orders b2 tid = Some (T1\<lparr>remaining_size := r,
                          status := (if r = 0 then Filled else Partially_filled)\<rparr>)"
          by (auto simp: b2_def)
        define T2 where "T2 = T1\<lparr>remaining_size := r,
                          status := (if r = 0 then Filled else Partially_filled)\<rparr>"
        have t2': "orders b2 tid = Some T2" using t2 by (simp add: T2_def)
        have o2: "order_of b2 tid = T2" using t2' by (simp add: order_of_def)
        have "orders_inv b2" using ti2 by (simp add: taker_inv_def book_inv_but_def)
        then have r0: "0 \<le> r"
          using t2' unfolding orders_inv_def T2_def by fastforce
        show ?thesis
        proof (cases "0 < r")
          case True
          then have stat: "status T2 = Partially_filled" by (simp add: T2_def)
          have o3: "order_of b3 tid = T2" by (simp add: b3_def o2)
          have fin: "snd (add_limit_order clk tid b) = b3"
            using True stat by (simp add: res o2 o3 T2_def)
          have "book_inv b3"
          proof (rule taker_inv_rest [OF ti2 t2', where p = p and st = Partially_filled])
            show "otype T2 = Limit" using lim by (simp add: T2_def T1_def)
            show "price T2 = Some p" by (simp add: T2_def T1_def)
            show "0 < remaining_size T2" using True by (simp add: T2_def)
            show "Partially_filled = Active \<or> Partially_filled = Partially_filled" by simp
            have "T2\<lparr>status := Partially_filled\<rparr> = T2" using stat by simp
            then show "orders b3 = (orders b2)(tid \<mapsto> T2\<lparr>status := Partially_filled\<rparr>)"
              using t2' by (simp add: b3_def map_upd_triv)
            show "fills b3 = fills b2" by (simp add: b3_def)
            show "own_book s b3 =
              (if s = side T2
               then AList.update p (queue_at (own_book s b2) p @ [(tid, remaining_size T2)]) (own_book s b2)
               else own_book s b2)" for s
              by (simp add: b3_def o2 T2_def s1)
          qed
          then show ?thesis by (simp add: fin)
        next
          case False
          then have "r = 0" using r0 by simp
          then have "\<not> resting T2" by (simp add: T2_def resting_def)
          then have "book_inv b2" using ti2 t2' by (rule taker_inv_close [rotated 2])
          then show ?thesis using False by (simp add: res o2 T2_def)
        qed
      next
        case False
        then have b2: "b2 = b1" by (simp add: b2_def)
        have o3: "order_of b3 tid = T1" by (simp add: b3_def b2 o1)
        have fin: "snd (add_limit_order clk tid b) = upd_order tid (\<lambda>x. x\<lparr>status := Active\<rparr>) b3"
          using pos st by (simp add: res b2 o1 o3 T1_def)
        have "book_inv (upd_order tid (\<lambda>x. x\<lparr>status := Active\<rparr>) b3)"
        proof (rule taker_inv_rest [OF ti1 t1, where p = p and st = Active])
          show "otype T1 = Limit" using lim by (simp add: T1_def)
          show "price T1 = Some p" by (simp add: T1_def)
          show "0 < remaining_size T1" using pos by (simp add: T1_def)
          show "Active = Active \<or> Active = Partially_filled" by simp
          show "orders (upd_order tid (\<lambda>x. x\<lparr>status := Active\<rparr>) b3)
                  = (orders b1)(tid \<mapsto> T1\<lparr>status := Active\<rparr>)"
            by (simp add: o3) (simp add: b3_def b2)
          show "fills (upd_order tid (\<lambda>x. x\<lparr>status := Active\<rparr>) b3) = fills b1"
            by (simp add: b3_def b2)
          show "own_book s (upd_order tid (\<lambda>x. x\<lparr>status := Active\<rparr>) b3) =
              (if s = side T1
               then AList.update p (queue_at (own_book s b1) p @ [(tid, remaining_size T1)]) (own_book s b1)
               else own_book s b1)" for s
            by (simp add: b3_def b2 o1 s1)
        qed
        then show ?thesis by (simp add: fin)
      qed
    qed
  qed
qed

lemma add_order_inv:
  assumes inv: "book_inv b" and fresh: "orders b (order_id x) = None" and sz: "0 < osize x"
    and st: "status x = Pending"
  shows "book_inv (snd (add_order clk x b))"
proof -
  define tid where "tid = order_id x"
  define T where "T = x\<lparr>remaining_size := osize x\<rparr>"
  define b1 where "b1 = b\<lparr>orders := (orders b)(order_id x \<mapsto> x\<lparr>remaining_size := osize x\<rparr>)\<rparr>"
  have ti: "taker_inv tid b1"
    unfolding tid_def b1_def using inv fresh sz by (intro register_taker_inv) simp_all
  have t: "orders b1 tid = Some T"
    by (simp add: b1_def tid_def T_def)
  have oT: "order_of b1 tid = T" using t by (simp add: order_of_def)
  show ?thesis
  proof (cases "otype x")
    case Market
    have res: "snd (add_order clk x b) = snd (match_market_order clk tid b1)"
      using Market by (simp add: add_order_def Let_def b1_def [symmetric] tid_def split: prod.splits)
    have nrT: "\<not> resting (T\<lparr>status := s'\<rparr>)" "\<not> resting (T\<lparr>remaining_size := r, status := s'\<rparr>)" for r s'
      using Market by (simp_all add: resting_def T_def)
    show ?thesis
    proof (cases "opposite_book (side T) b1 = []")
      case True
      then have r: "snd (match_market_order clk tid b1) = upd_order tid (\<lambda>x. x\<lparr>status := Rejected\<rparr>) b1"
        by (simp add: match_market_order_empty oT)
      have "taker_inv tid (upd_order tid (\<lambda>x. x\<lparr>status := Rejected\<rparr>) b1)"
        by (rule taker_inv_upd_taker [OF ti t]) simp_all
      moreover have "orders (upd_order tid (\<lambda>x. x\<lparr>status := Rejected\<rparr>) b1) tid
                       = Some (T\<lparr>status := Rejected\<rparr>)"
        by (simp add: oT)
      ultimately show ?thesis
        using nrT(1) by (simp add: res r taker_inv_close)
    next
      case False
      from match_market_order_inv [OF ti t False, of clk]
      show ?thesis
        using nrT(2) by (auto simp: res intro: taker_inv_close)
    qed
  next
    case Limit
    have res: "snd (add_order clk x b) = snd (add_limit_order clk tid b1)"
      using Limit by (simp add: add_order_def Let_def b1_def [symmetric] tid_def)
    show ?thesis
      unfolding res
      by (rule add_limit_order_inv [OF ti t]) (simp_all add: T_def Limit st sz)
  qed
qed

lemma new_lob_inv: "book_inv (new_lob tick levels)"
  by (simp add: book_inv_def book_inv_but_def orders_inv_def fills_inv_def entries_inv_def
        queues_inv_def resting_inv_def new_lob_def own_book_def queue_at_def keys_def)

lemma reachable_book_inv: "reachable b \<Longrightarrow> book_inv b"
  by (induction rule: reachable.induct) (simp_all add: new_lob_inv add_order_inv cancel_order_inv)

text \<open>The concrete books are built by the operations.\<close>

lemma reachable_empty_book: "reachable empty_book"
  unfolding empty_book_def by (rule reachable_new)

lemma reachable_one_bid_book: "reachable one_bid_book"
  unfolding one_bid_book_def
  by (rule reachable_add [OF reachable_empty_book])
     (simp_all add: empty_book_def new_lob_def new_order_def)

lemma reachable_two_asks_book: "reachable two_asks_book"
  unfolding two_asks_book_def
proof (rule reachable_add)
  show "reachable (snd (add_order example_clock (new_order ''a1'' ''maker'' Sell Limit (Some 99) 1) empty_book))"
    by (rule reachable_add [OF reachable_empty_book])
       (simp_all add: empty_book_def new_lob_def new_order_def)
  show "orders (snd (add_order example_clock (new_order ''a1'' ''maker'' Sell Limit (Some 99) 1) empty_book))
          (order_id (new_order ''a2'' ''maker'' Sell Limit (Some 105) 10)) = None"
    by code_simp
qed (simp_all add: new_order_def)

lemma reachable_sold_book: "reachable sold_book"
  unfolding sold_book_def
proof (rule reachable_add [OF reachable_one_bid_book])
  show "orders one_bid_book (order_id (new_order ''s'' ''taker'' Sell Limit (Some (1999 / 20)) 3)) = None"
    by code_simp
qed (simp_all add: new_order_def)

lemma queue_at_member:
  "distinct (keys d) \<Longrightarrow> (p, q) \<in> set d \<Longrightarrow> queue_at d p = q"
  by (simp add: queue_at_def keys_def)

lemma filter_concat_empty:
  "\<forall>e \<in> set d. filter P (snd e) = [] \<Longrightarrow> filter P (concat (map snd d)) = []"
  by (induction d) auto

lemma filter_concat_level:
  assumes "distinct (keys d)"
    and "\<forall>e \<in> set d. fst e \<noteq> p \<longrightarrow> filter P (snd e) = []"
  shows "filter P (concat (map snd d)) = filter P (queue_at d p)"
  using assms
proof (induction d)
  case Nil
  then show ?case by (simp add: queue_at_def)
next
  case (Cons a d)
  obtain k q0 where a: "a = (k, q0)" by (cases a)
  have dk: "distinct (keys d)" and kn: "k \<notin> set (keys d)"
    using Cons.prems(1) by (simp_all add: keys_def a)
  have rest: "\<forall>e \<in> set d. fst e \<noteq> p \<longrightarrow> filter P (snd e) = []"
    using Cons.prems(2) by simp
  show ?case
  proof (cases "k = p")
    case True
    have "\<forall>e \<in> set d. fst e \<noteq> p"
      using kn True by (auto simp: keys_def)
    then have "filter P (concat (map snd d)) = []"
      using rest by (intro filter_concat_empty) blast
    then show ?thesis by (simp add: a True queue_at_def)
  next
    case False
    have "filter P q0 = []"
      using Cons.prems(2) False by (simp add: a)
    moreover have "filter P (concat (map snd d)) = filter P (queue_at d p)"
      using Cons.IH [OF dk rest] .
    ultimately show ?thesis using False by (simp add: a queue_at_def)
  qed
qed

lemma filter_distinct_key:
  "distinct (map fst q) \<Longrightarrow> (k, v) \<in> set q \<Longrightarrow> filter (\<lambda>e. fst e = k) q = [(k, v)]"
proof (induction q)
  case Nil
  then show ?case by simp
next
  case (Cons a q)
  show ?case
  proof (cases "a = (k, v)")
    case True
    then have "k \<notin> fst ` set q" using Cons.prems(1) by simp
    then have "filter (\<lambda>e. fst e = k) q = []"
      by (auto simp: filter_empty_conv)
    then show ?thesis using True by simp
  next
    case False
    then have m: "(k, v) \<in> set q" using Cons.prems(2) by simp
    then have "fst a \<noteq> k" using Cons.prems(1) by (force simp: image_iff)
    then show ?thesis using Cons.IH m Cons.prems(1) by simp
  qed
qed

lemma all_entries_own: "all_entries b = concat (map snd (own_book Buy b)) @ concat (map snd (own_book Sell b))"
  by (simp add: all_entries_def own_book_def)

text \<open>
  C9.  In every book that the operations build, for every order in the index, the sizes
  of the fill records bearing its identifier add up to its size less its remaining size,
  and \<open>0 \<le> remaining_size \<le> size\<close>.
\<close>

theorem fills_account_for_size:
  assumes "reachable b" and "orders b oid = Some x"
  shows "filled_size b oid = osize x - remaining_size x
         \<and> 0 \<le> remaining_size x \<and> remaining_size x \<le> osize x"
proof -
  have "orders_inv b"
    using reachable_book_inv [OF assms(1)] by (simp add: book_inv_def book_inv_but_def)
  then show ?thesis
    using assms(2) unfolding orders_inv_def by blast
qed

text \<open>The buyer of \<open>sold_book\<close>: 10 ordered, 7 remaining, 3 filled.\<close>

theorem fills_account_for_size_witness:
  "reachable sold_book
   \<and> map_option (\<lambda>x. (osize x, remaining_size x)) (orders sold_book ''b1'') = Some (10, 7)
   \<and> filled_size sold_book ''b1'' = 3"
proof -
  have v: "map_option (\<lambda>x. (osize x, remaining_size x)) (orders sold_book ''b1'') = Some (10, 7)"
    by code_simp
  then obtain x where x: "orders sold_book ''b1'' = Some x" "osize x = 10" "remaining_size x = 7"
    by auto
  show ?thesis
    using fills_account_for_size [OF reachable_sold_book x(1)] reachable_sold_book v x
    by simp
qed


text \<open>
  C6 (as amended).  In every book that the operations build, for every limit order in
  the index whose status is active or partially filled, exactly one queue entry of the
  whole book refers to it; the entry is in the queue at the order's price on the order's
  side, and the size it caches is the order's remaining size.
\<close>

theorem resting_limit_order_has_one_entry:
  assumes r: "reachable b" and x: "orders b oid = Some x" and lim: "otype x = Limit"
    and st: "status x = Active \<or> status x = Partially_filled"
  shows "\<exists>p. price x = Some p
           \<and> (oid, remaining_size x) \<in> set (queue_at (own_book (side x) b) p)
           \<and> filter (\<lambda>e. fst e = oid) (all_entries b) = [(oid, remaining_size x)]"
proof -
  have inv: "book_inv b" using r by (rule reachable_book_inv)
  have ei: "entries_inv b" and qi: "queues_inv b" and ri: "resting_inv {} b"
    using inv by (simp_all add: book_inv_def book_inv_but_def)
  have "resting x" using lim st by (simp add: resting_def)
  then obtain p where p: "price x = Some p"
      and m: "oid \<in> fst ` set (queue_at (own_book (side x) b) p)"
    using ri x unfolding resting_inv_def by blast
  from m obtain sz where sz: "(oid, sz) \<in> set (queue_at (own_book (side x) b) p)"
    by force
  then have "sz = remaining_size x"
    using ei x unfolding entries_inv_def by fastforce
  with sz have mem: "(oid, remaining_size x) \<in> set (queue_at (own_book (side x) b) p)"
    by simp
  have dq: "distinct (map fst (queue_at (own_book (side x) b) p))"
    and dk: "distinct (keys (own_book s b))" for s
    using qi unfolding queues_inv_def by blast+
  have none: "filter (\<lambda>e. fst e = oid) q = []"
    if "(p', q) \<in> set (own_book s b)" and "s \<noteq> side x \<or> p' \<noteq> p" for s p' q
  proof -
    note cond = that(2)
    have q: "queue_at (own_book s b) p' = q"
      using dk that(1) by (rule queue_at_member)
    have "fst e \<noteq> oid" if "e \<in> set q" for e
    proof
      assume "fst e = oid"
      then have "(oid, snd e) \<in> set (queue_at (own_book s b) p')"
        using that q by (metis prod.collapse)
      then have "side x = s \<and> price x = Some p'"
        using ei x unfolding entries_inv_def by fastforce
      then show False using cond p by auto
    qed
    then show ?thesis by (auto simp: filter_empty_conv)
  qed
  have "\<forall>e \<in> set (own_book (side x) b). fst e \<noteq> p \<longrightarrow> filter (\<lambda>e. fst e = oid) (snd e) = []"
    using none [of _ _ "side x"] by (metis prod.collapse)
  then have own: "filter (\<lambda>e. fst e = oid) (concat (map snd (own_book (side x) b)))
               = [(oid, remaining_size x)]"
    using filter_concat_level [OF dk, of "side x" p "\<lambda>e. fst e = oid"]
      filter_distinct_key [OF dq mem]
    by simp
  have other: "filter (\<lambda>e. fst e = oid) (concat (map snd (own_book s b))) = []" if "s \<noteq> side x" for s
  proof (rule filter_concat_empty)
    show "\<forall>e \<in> set (own_book s b). filter (\<lambda>e. fst e = oid) (snd e) = []"
      using none [of _ _ s] that by (metis prod.collapse)
  qed
  have "filter (\<lambda>e. fst e = oid) (all_entries b) = [(oid, remaining_size x)]"
    using own other [of Buy] other [of Sell]
    by (cases "side x") (simp_all add: all_entries_own)
  then show ?thesis using p mem by blast
qed

text \<open>The buyer of \<open>sold_book\<close> rests at 100 with 7 remaining.\<close>

theorem resting_limit_order_has_one_entry_witness:
  "reachable sold_book
   \<and> map_option (\<lambda>x. (otype x, status x, side x, price x, remaining_size x)) (orders sold_book ''b1'')
       = Some (Limit, Partially_filled, Buy, Some 100, 7)
   \<and> (''b1'', 7) \<in> set (queue_at (own_book Buy sold_book) 100)
   \<and> filter (\<lambda>e. fst e = ''b1'') (all_entries sold_book) = [(''b1'', 7)]"
proof -
  have v: "map_option (\<lambda>x. (otype x, status x, side x, price x, remaining_size x)) (orders sold_book ''b1'')
       = Some (Limit, Partially_filled, Buy, Some 100, 7)"
    by code_simp
  then obtain x where x: "orders sold_book ''b1'' = Some x" "otype x = Limit"
      "status x = Partially_filled" "side x = Buy" "price x = Some 100" "remaining_size x = 7"
    by auto
  show ?thesis
    using resting_limit_order_has_one_entry [OF reachable_sold_book x(1,2)] reachable_sold_book v x
    by auto
qed

text \<open>
  C6 as stated fails: the market buy of 12 that swept the 11 on offer is in the index with
  status partially filled and 1 remaining, and the book has no queue entry at all.
\<close>

theorem partially_filled_market_order_not_queued:
  "map_option (\<lambda>x. (otype x, status x, remaining_size x)) (orders swept_book ''t'')
     = Some (Market, Partially_filled, 1)
   \<and> all_entries swept_book = []"
  by code_simp


lemma taker_maker_pairs_append:
  "taker_maker_pairs clk n x (fs @ [f1, f2]) \<longleftrightarrow>
     taker_maker_pairs clk n x fs \<and> fill_pair clk (n + length fs) x f1 f2"
  by (induction clk n x fs rule: taker_maker_pairs.induct) auto

lemma fill_pair_remaining [simp]:
  "fill_pair clk n (x\<lparr>remaining_size := r\<rparr>) f1 f2 = fill_pair clk n x f1 f2"
  by (simp add: fill_pair_def)

lemma taker_maker_pairs_remaining [simp]:
  "taker_maker_pairs clk n (x\<lparr>remaining_size := r\<rparr>) fs = taker_maker_pairs clk n x fs"
  by (induction clk n x fs rule: taker_maker_pairs.induct) auto

lemma matched_pairs:
  assumes "matched clk sd tid b b'" and "taker_inv tid b" and "orders b tid = Some T"
    and "side T = sd"
  shows "\<exists>new. fills b' = fills b @ new \<and> clock_reads b' = clock_reads b + length new
           \<and> taker_maker_pairs clk (clock_reads b) T new"
  using assms
proof (induction rule: matched.induct)
  case matched_refl
  then show ?case by simp
next
  case (matched_drop b1 p oid avail rest)
  then show ?case by (simp add: set_queue_def set_opposite_book_def)
next
  case (matched_step b1 p oid avail rest)
  then obtain new where new: "fills b1 = fills b @ new"
      "clock_reads b1 = clock_reads b + length new"
      "taker_maker_pairs clk (clock_reads b) T new"
    by auto
  have ti1: "taker_inv tid b1"
    using matched_taker_inv [OF matched_step.hyps(1) matched_step.prems(1)] .
  from matched_static [OF matched_step.hyps(1) matched_step.prems(1,2)]
  obtain r where t1: "orders b1 tid = Some (T\<lparr>remaining_size := r\<rparr>)" by auto
  have rpos: "0 < r"
    using matched_step.hyps(3) t1 by (simp add: order_of_def)
  have ei: "entries_inv b1" and ab: "absent tid b1" and oi: "orders_inv b1"
    using ti1 by (simp_all add: taker_inv_def book_inv_but_def)
  have "(oid, avail) \<in> set (queue_at (own_book (opposite_side sd) b1) p)"
    using matched_step.hyps(2) by (simp add: opposite_book_own)
  then obtain M where m: "orders b1 oid = Some M" and ms: "side M = opposite_side sd"
    and mr: "remaining_size M = avail" and mp: "0 < avail"
    using ei unfolding entries_inv_def by blast
  have ne: "oid \<noteq> tid"
    using ab matched_step.hyps(2) unfolding absent_def opposite_book_own
    by (metis fst_conv image_eqI list.set_intros(1))
  have tid: "order_id T = tid"
    using oi t1 unfolding orders_inv_def by fastforce
  let ?b' = "snd (match_step clk sd tid p oid b1)"
  let ?f = "min r avail"
  let ?f1 = "\<lparr>fill_order_id = order_id T, fill_client_id = client_id T, fill_side = side T,
             fill_price = p, fill_size = ?f, fill_timestamp = clk (clock_reads b1)\<rparr>"
  let ?f2 = "\<lparr>fill_order_id = oid, fill_client_id = client_id M, fill_side = side M,
             fill_price = p, fill_size = ?f, fill_timestamp = clk (clock_reads b1 + 1)\<rparr>"
  have F: "fills ?b' = fills b1 @ [?f1, ?f2]" and C: "clock_reads ?b' = clock_reads b1 + 2"
    using match_step_fills(1,3) [OF t1 m, of clk sd p] by (simp_all add: mr)
  have "fill_pair clk (clock_reads b + length new) T ?f1 ?f2"
    using ne tid ms matched_step.prems(3) rpos mp new(2)
    by (simp add: fill_pair_def)
  then have "taker_maker_pairs clk (clock_reads b) T (new @ [?f1, ?f2])"
    using new(3) by (simp add: taker_maker_pairs_append)
  then show ?case
    using F C new(1,2) by (intro exI [of _ "new @ [?f1, ?f2]"]) simp
qed

lemma liquidity_update:
  "liquidity (AList.update p q' d)
     = liquidity d - sum_list (map snd (queue_at d p)) + sum_list (map snd q')"
  by (induction d) (auto simp: liquidity_def queue_at_def)

lemma liquidity_nonneg:
  assumes "entries_inv b" and "queues_inv b"
  shows "0 \<le> liquidity (own_book s b)"
proof -
  have "0 \<le> snd e" if "e \<in> set (concat (map snd (own_book s b)))" for e
  proof -
    from that obtain p q where pq: "(p, q) \<in> set (own_book s b)" and e: "e \<in> set q"
      by auto
    have "queue_at (own_book s b) p = q"
      using assms(2) pq unfolding queues_inv_def by (intro queue_at_member) blast+
    then have "(fst e, snd e) \<in> set (queue_at (own_book s b) p)"
      using e by simp
    then show ?thesis
      using assms(1) unfolding entries_inv_def by fastforce
  qed
  then show ?thesis
    unfolding liquidity_def by (intro sum_list_nonneg) auto
qed

lemma matched_conservation:
  assumes "matched clk sd tid b b'" and "taker_inv tid b" and "orders b tid = Some T"
  shows "\<exists>r. orders b' tid = Some (T\<lparr>remaining_size := r\<rparr>)
           \<and> r - liquidity (opposite_book sd b') = remaining_size T - liquidity (opposite_book sd b)"
  using assms
proof (induction rule: matched.induct)
  case matched_refl
  have "T = T\<lparr>remaining_size := remaining_size T\<rparr>" by simp
  then show ?case using matched_refl by metis
next
  case (matched_drop b1 p oid avail rest)
  then have "entries_inv b1"
    using matched_taker_inv [OF matched_drop.hyps(1)] by (simp add: taker_inv_def book_inv_but_def)
  moreover have "(oid, avail) \<in> set (queue_at (own_book (opposite_side sd) b1) p)"
    using matched_drop.hyps(2) by (simp add: opposite_book_own)
  ultimately have False
    using matched_drop.hyps(3) unfolding entries_inv_def by fastforce
  then show ?case ..
next
  case (matched_step b1 p oid avail rest)
  then obtain r where t1: "orders b1 tid = Some (T\<lparr>remaining_size := r\<rparr>)"
    and c1: "r - liquidity (opposite_book sd b1) = remaining_size T - liquidity (opposite_book sd b)"
    by auto
  have ti1: "taker_inv tid b1"
    using matched_taker_inv [OF matched_step.hyps(1) matched_step.prems(1)] .
  have ei: "entries_inv b1" and ab: "absent tid b1"
    using ti1 by (simp_all add: taker_inv_def book_inv_but_def)
  have q0: "queue_at (own_book (opposite_side sd) b1) p = (oid, avail) # rest"
    using matched_step.hyps(2) by (simp add: opposite_book_own)
  then have "(oid, avail) \<in> set (queue_at (own_book (opposite_side sd) b1) p)"
    by simp
  then obtain M where m: "orders b1 oid = Some M" and mr: "remaining_size M = avail"
    using ei unfolding entries_inv_def by blast
  have ne: "oid \<noteq> tid"
    using ab matched_step.hyps(2) unfolding absent_def opposite_book_own
    by (metis fst_conv image_eqI list.set_intros(1))
  let ?b' = "snd (match_step clk sd tid p oid b1)"
  let ?f = "min r avail"
  have O: "orders ?b' tid = Some (T\<lparr>remaining_size := r - ?f\<rparr>)"
    using match_step_orders [OF t1 m ne, of clk sd p] ne by (simp add: mr)
  have B: "opposite_book sd ?b' =
             AList.update p (if avail - ?f = 0 then rest else (oid, avail - ?f) # rest)
               (opposite_book sd b1)"
    using match_step_book [OF t1 m ne matched_step.hyps(2), of "opposite_side sd" clk]
    by (simp add: opposite_book_own mr)
  have "liquidity (opposite_book sd ?b') = liquidity (opposite_book sd b1) - ?f"
    unfolding B liquidity_update using q0 by (simp add: opposite_book_own)
  then show ?case
    using O c1 by (intro exI [of _ "r - ?f"]) simp
qed

lemma opposite_book_upd_order [simp]: "opposite_book s (upd_order oid f b) = opposite_book s b"
  by (simp add: opposite_book_own)

lemma opposite_book_orders_update [simp]: "opposite_book s (b\<lparr>orders := m\<rparr>) = opposite_book s b"
  by (simp add: opposite_book_own)

lemma add_limit_order_fills:
  assumes t: "orders b tid = Some T"
  shows "(fills (snd (add_limit_order clk tid b)) = fills b
           \<and> clock_reads (snd (add_limit_order clk tid b)) = clock_reads b)
         \<or> (\<exists>p. opposite_book (side T) b \<noteq> []
               \<and> fills (snd (add_limit_order clk tid b))
                   = fills (snd (match_market_order clk tid (upd_order tid (\<lambda>x. x\<lparr>price := Some p\<rparr>) b)))
               \<and> clock_reads (snd (add_limit_order clk tid b))
                   = clock_reads (snd (match_market_order clk tid (upd_order tid (\<lambda>x. x\<lparr>price := Some p\<rparr>) b))))"
proof -
  have oT: "order_of b tid = T" using t by (simp add: order_of_def)
  show ?thesis
  proof (cases "price T")
    case None
    then show ?thesis by (simp add: add_limit_order_def oT)
  next
    case (Some raw)
    show ?thesis
    proof (cases "round_price b raw")
      case (Inl e)
      then show ?thesis using Some by (simp add: add_limit_order_def oT)
    next
      case (Inr p)
      show ?thesis
        using Some Inr
        by (auto simp add: add_limit_order_def oT Let_def case_prod_beta)
    qed
  qed
qed

lemma match_market_order_pairs:
  assumes ti: "taker_inv tid b" and t: "orders b tid = Some T"
  shows "\<exists>new. fills (snd (match_market_order clk tid b)) = fills b @ new
           \<and> clock_reads (snd (match_market_order clk tid b)) = clock_reads b + length new
           \<and> taker_maker_pairs clk (clock_reads b) T new"
proof (cases "opposite_book (side T) b = []")
  case True
  then show ?thesis
    using t by (simp add: match_market_order_empty order_of_def)
next
  case False
  from match_market_order_result [OF ti t False, of clk]
  obtain b1 where m: "matched clk (side T) tid b b1"
    and res: "snd (match_market_order clk tid b) =
               upd_order tid
                 (\<lambda>x. x\<lparr>status := (if remaining_size x = 0 then Filled else Partially_filled)\<rparr>)
                 (set_opposite_book (side T) (clean_empty_queues (opposite_book (side T) b1)) b1)"
    by blast
  from matched_pairs [OF m ti t refl]
  show ?thesis by (simp add: res)
qed

lemma taker_maker_pairs_cong:
  "order_id x = order_id y \<Longrightarrow> client_id x = client_id y \<Longrightarrow> side x = side y \<Longrightarrow>
   taker_maker_pairs clk n x fs = taker_maker_pairs clk n y fs"
  by (induction clk n x fs rule: taker_maker_pairs.induct) (auto simp: fill_pair_def)

text \<open>
  C7 (as amended).  Submitting an order extends the fill history by a sequence of pairs,
  one pair for each match: the taker's fill first, then the maker's, with the same price
  and the same positive size, on opposite sides, and stamped with two successive readings
  of the clock.
\<close>

theorem fills_emitted_in_pairs:
  assumes r: "reachable b" and fresh: "orders b (order_id x) = None" and sz: "0 < osize x"
  shows "\<exists>new. fills (snd (add_order clk x b)) = fills b @ new
           \<and> taker_maker_pairs clk (clock_reads b) x new"
proof -
  define tid where "tid = order_id x"
  define T where "T = x\<lparr>remaining_size := osize x\<rparr>"
  define b1 where "b1 = b\<lparr>orders := (orders b)(order_id x \<mapsto> x\<lparr>remaining_size := osize x\<rparr>)\<rparr>"
  have inv: "book_inv b" using r by (rule reachable_book_inv)
  have ti: "taker_inv tid b1"
    unfolding tid_def b1_def using inv fresh sz by (intro register_taker_inv) simp_all
  have t: "orders b1 tid = Some T"
    by (simp add: b1_def tid_def T_def)
  have f1: "fills b1 = fills b" and c1: "clock_reads b1 = clock_reads b"
    by (simp_all add: b1_def)
  have pT: "taker_maker_pairs clk n T fs = taker_maker_pairs clk n x fs" for n fs
    by (simp add: T_def)
  show ?thesis
  proof (cases "otype x")
    case Market
    have res: "snd (add_order clk x b) = snd (match_market_order clk tid b1)"
      using Market by (simp add: add_order_def Let_def b1_def [symmetric] tid_def split: prod.splits)
    show ?thesis
      using match_market_order_pairs [OF ti t, of clk] by (auto simp: res f1 c1 pT)
  next
    case Limit
    have res: "snd (add_order clk x b) = snd (add_limit_order clk tid b1)"
      using Limit by (simp add: add_order_def Let_def b1_def [symmetric] tid_def)
    from add_limit_order_fills [OF t, of clk]
    show ?thesis
    proof
      assume "fills (snd (add_limit_order clk tid b1)) = fills b1
               \<and> clock_reads (snd (add_limit_order clk tid b1)) = clock_reads b1"
      then show ?thesis by (simp add: res f1)
    next
      assume "\<exists>p. opposite_book (side T) b1 \<noteq> []
               \<and> fills (snd (add_limit_order clk tid b1))
                   = fills (snd (match_market_order clk tid (upd_order tid (\<lambda>x. x\<lparr>price := Some p\<rparr>) b1)))
               \<and> clock_reads (snd (add_limit_order clk tid b1))
                   = clock_reads (snd (match_market_order clk tid (upd_order tid (\<lambda>x. x\<lparr>price := Some p\<rparr>) b1)))"
      then obtain p where
        fl: "fills (snd (add_limit_order clk tid b1))
               = fills (snd (match_market_order clk tid (upd_order tid (\<lambda>x. x\<lparr>price := Some p\<rparr>) b1)))"
        by blast
      let ?b2 = "upd_order tid (\<lambda>x. x\<lparr>price := Some p\<rparr>) b1"
      have ti2: "taker_inv tid ?b2"
        by (rule taker_inv_upd_taker [OF ti t]) simp_all
      have t2: "orders ?b2 tid = Some (T\<lparr>price := Some p\<rparr>)"
        using t by (simp add: order_of_def)
      have "taker_maker_pairs clk n (T\<lparr>price := Some p\<rparr>) fs = taker_maker_pairs clk n x fs" for n fs
        by (rule taker_maker_pairs_cong) (simp_all add: T_def)
      then show ?thesis
        using match_market_order_pairs [OF ti2 t2, of clk] by (auto simp: res fl f1 c1)
    qed
  qed
qed

text \<open>The limit sell of 3 sent to \<open>one_bid_book\<close>.\<close>

theorem fills_emitted_in_pairs_witness:
  "reachable one_bid_book
   \<and> orders one_bid_book ''s'' = None
   \<and> (\<exists>new. fills sold_book = fills one_bid_book @ new
          \<and> taker_maker_pairs example_clock (clock_reads one_bid_book)
               (new_order ''s'' ''taker'' Sell Limit (Some (1999 / 20)) 3) new)"
proof -
  have f: "orders one_bid_book ''s'' = None"
    by code_simp
  show ?thesis
    using fills_emitted_in_pairs [OF reachable_one_bid_book, of
        "new_order ''s'' ''taker'' Sell Limit (Some (1999 / 20)) 3" example_clock]
      reachable_one_bid_book f
    by (simp add: new_order_def sold_book_def)
qed

text \<open>
  C7 as stated fails: each fill record takes its own reading of the clock, and with a
  clock that advances between readings the two fills of a match bear different timestamps.
\<close>

theorem paired_fills_differ_in_timestamp:
  "fills sold_book
     = [\<lparr>fill_order_id = ''s'', fill_client_id = ''taker'', fill_side = Sell, fill_price = 100,
             fill_size = 3, fill_timestamp = 0\<rparr>,
        \<lparr>fill_order_id = ''b1'', fill_client_id = ''maker'', fill_side = Buy, fill_price = 100,
             fill_size = 3, fill_timestamp = 1\<rparr>]"
  by code_simp


lemma absent_all_entries:
  assumes "absent tid b" and "queues_inv b"
  shows "tid \<notin> fst ` set (all_entries b)"
proof
  assume "tid \<in> fst ` set (all_entries b)"
  then obtain e where e: "e \<in> set (all_entries b)" "fst e = tid" by auto
  then obtain s p q where pq: "(p, q) \<in> set (own_book s b)" and eq: "e \<in> set q"
    by (auto simp: all_entries_own)
  have "queue_at (own_book s b) p = q"
    using assms(2) pq unfolding queues_inv_def by (intro queue_at_member) blast+
  then have "tid \<in> fst ` set (queue_at (own_book s b) p)"
    using e(2) eq by auto
  then show False using assms(1) unfolding absent_def by blast
qed

text \<open>
  C5.  A market order sent to a book whose opposite side is empty returns no fills and
  changes nothing but the index, where it is registered as rejected.  A market order
  larger than what the opposite side offers ends partially filled with a positive
  remaining size; no queue entry refers to it and its own side of the book is as before.
\<close>

theorem market_order_edge_cases:
  assumes r: "reachable b" and fresh: "orders b (order_id x) = None" and mk: "otype x = Market"
    and sz: "0 < osize x"
  shows "(opposite_book (side x) b = [] \<longrightarrow>
            add_order clk x b =
              (Inr [], b\<lparr>orders := (orders b)(order_id x \<mapsto> x\<lparr>remaining_size := osize x, status := Rejected\<rparr>)\<rparr>))
         \<and> (opposite_book (side x) b \<noteq> [] \<and> liquidity (opposite_book (side x) b) < osize x \<longrightarrow>
              (\<exists>t. orders (snd (add_order clk x b)) (order_id x) = Some t
                    \<and> status t = Partially_filled \<and> 0 < remaining_size t)
              \<and> order_id x \<notin> fst ` set (all_entries (snd (add_order clk x b)))
              \<and> own_book (side x) (snd (add_order clk x b)) = own_book (side x) b)"
proof (rule conjI; rule impI)
  assume "opposite_book (side x) b = []"
  then show "add_order clk x b =
              (Inr [], b\<lparr>orders := (orders b)(order_id x \<mapsto> x\<lparr>remaining_size := osize x, status := Rejected\<rparr>)\<rparr>)"
    using mk by (simp add: add_order_def match_market_order_def Let_def order_of_def upd_order_def)
next
  assume a: "opposite_book (side x) b \<noteq> [] \<and> liquidity (opposite_book (side x) b) < osize x"
  define tid where "tid = order_id x"
  define T where "T = x\<lparr>remaining_size := osize x\<rparr>"
  define b1 where "b1 = b\<lparr>orders := (orders b)(order_id x \<mapsto> x\<lparr>remaining_size := osize x\<rparr>)\<rparr>"
  define b' where "b' = snd (add_order clk x b)"
  have inv: "book_inv b" using r by (rule reachable_book_inv)
  have ti: "taker_inv tid b1"
    unfolding tid_def b1_def using inv fresh sz by (intro register_taker_inv) simp_all
  have t: "orders b1 tid = Some T"
    by (simp add: b1_def tid_def T_def)
  have res: "b' = snd (match_market_order clk tid b1)"
    using mk by (simp add: b'_def add_order_def Let_def b1_def [symmetric] tid_def split: prod.splits)
  have ne: "opposite_book (side T) b1 \<noteq> []"
    using a by (simp add: T_def b1_def)
  from match_market_order_result [OF ti t ne, of clk]
  obtain b2 r where m: "matched clk (side T) tid b1 b2"
    and t2: "orders b2 tid = Some (T\<lparr>remaining_size := r\<rparr>)"
    and res2: "snd (match_market_order clk tid b1) =
               upd_order tid
                 (\<lambda>x. x\<lparr>status := (if remaining_size x = 0 then Filled else Partially_filled)\<rparr>)
                 (set_opposite_book (side T) (clean_empty_queues (opposite_book (side T) b2)) b2)"
    by blast
  from matched_conservation [OF m ti t]
  obtain r' where t2': "orders b2 tid = Some (T\<lparr>remaining_size := r'\<rparr>)"
    and c: "r' - liquidity (opposite_book (side T) b2)
              = remaining_size T - liquidity (opposite_book (side T) b1)"
    by blast
  have "T\<lparr>remaining_size := r\<rparr> = T\<lparr>remaining_size := r'\<rparr>"
    using t2 t2' by simp
  then have "remaining_size (T\<lparr>remaining_size := r\<rparr>) = remaining_size (T\<lparr>remaining_size := r'\<rparr>)"
    by (rule arg_cong)
  then have "r = r'" by simp
  then have cons: "r - liquidity (opposite_book (side T) b2)
                = remaining_size T - liquidity (opposite_book (side T) b1)"
    using c by simp
  have ti2: "taker_inv tid b2" using m ti by (rule matched_taker_inv)
  then have "0 \<le> liquidity (opposite_book (side T) b2)"
    unfolding opposite_book_own by (intro liquidity_nonneg) (simp_all add: taker_inv_def book_inv_but_def)
  then have rpos: "0 < r"
    using cons a by (simp add: T_def b1_def)
  have ot: "orders b' tid = Some (T\<lparr>remaining_size := r, status := Partially_filled\<rparr>)"
    using t2 rpos by (simp add: res res2 order_of_def)
  from match_market_order_inv [OF ti t ne, of clk]
  have ti': "taker_inv tid b'" and own: "own_book (side T) b' = own_book (side T) b1"
    by (simp_all add: res)
  have "tid \<notin> fst ` set (all_entries b')"
    using ti' by (intro absent_all_entries) (simp_all add: taker_inv_def book_inv_but_def)
  then show "(\<exists>t. orders (snd (add_order clk x b)) (order_id x) = Some t
                    \<and> status t = Partially_filled \<and> 0 < remaining_size t)
              \<and> order_id x \<notin> fst ` set (all_entries (snd (add_order clk x b)))
              \<and> own_book (side x) (snd (add_order clk x b)) = own_book (side x) b"
    using ot rpos own by (simp add: b'_def [symmetric] tid_def [symmetric] T_def b1_def)
qed

text \<open>
  A market buy of 5 sent to the empty book, and a market buy of 12 sent to a book that
  offers 11.
\<close>

theorem market_order_edge_cases_witness:
  "opposite_book Buy empty_book = []
   \<and> fst (add_order example_clock (new_order ''t'' ''taker'' Buy Market None 5) empty_book) = Inr []
   \<and> bids rejected_book = bids empty_book \<and> asks rejected_book = asks empty_book
   \<and> reachable two_asks_book
   \<and> opposite_book Buy two_asks_book \<noteq> []
   \<and> liquidity (opposite_book Buy two_asks_book) < 12
   \<and> (\<exists>t. orders swept_book ''t'' = Some t \<and> status t = Partially_filled \<and> 0 < remaining_size t)
   \<and> ''t'' \<notin> fst ` set (all_entries swept_book)
   \<and> own_book Buy swept_book = own_book Buy two_asks_book"
proof -
  have e: "opposite_book Buy empty_book = []"
    by (simp add: empty_book_def new_lob_def opposite_book_def)
  have fe: "orders empty_book ''t'' = None"
    by (simp add: empty_book_def new_lob_def)
  have f: "orders two_asks_book ''t'' = None"
    by code_simp
  have l: "opposite_book Buy two_asks_book \<noteq> [] \<and> liquidity (opposite_book Buy two_asks_book) < 12"
    by code_simp
  have 1: "add_order example_clock (new_order ''t'' ''taker'' Buy Market None 5) empty_book
           = (Inr [], empty_book\<lparr>orders := (orders empty_book)(''t'' \<mapsto>
                (new_order ''t'' ''taker'' Buy Market None 5)\<lparr>remaining_size := 5, status := Rejected\<rparr>)\<rparr>)"
    using market_order_edge_cases [OF reachable_empty_book, of
        "new_order ''t'' ''taker'' Buy Market None 5" example_clock] e fe
    by (simp add: new_order_def)
  have 2: "(\<exists>t. orders swept_book ''t'' = Some t \<and> status t = Partially_filled \<and> 0 < remaining_size t)
   \<and> ''t'' \<notin> fst ` set (all_entries swept_book)
   \<and> own_book Buy swept_book = own_book Buy two_asks_book"
    using market_order_edge_cases [OF reachable_two_asks_book, of
        "new_order ''t'' ''taker'' Buy Market None 12" example_clock] f l
    by (simp add: new_order_def swept_book_def)
  show ?thesis
    using e l 1 2 reachable_two_asks_book by (simp add: rejected_book_def)
qed


end
